theory Spec2Isabelle
  imports Main "HOL-Library.Product_Lexorder"
begin

section \<open>Calendar dates: the part of Python's datetime.date the program uses\<close>

text \<open>
  A \<^verbatim>\<open>date\<close> object holds year, month and day and is compared as that triple, so a
  date is the triple itself under the lexicographic order. Differences and sums with a
  \<^verbatim>\<open>timedelta\<close> go through the proleptic Gregorian ordinal, as the standard library
  computes it. Every timedelta of the program is a whole number of days and is modelled by
  that number.
\<close>

type_synonym date = "int \<times> int \<times> int"

datatype py_error = OverflowError | ValueError

definition year :: "date \<Rightarrow> int" where
  "year d = fst d"

definition month :: "date \<Rightarrow> int" where
  "month d = fst (snd d)"

definition day :: "date \<Rightarrow> int" where
  "day d = snd (snd d)"

definition MINYEAR :: int where
  "MINYEAR = 1"

definition MAXYEAR :: int where
  "MAXYEAR = 9999"

definition DAYS_IN_MONTH :: "int list" where
  "DAYS_IN_MONTH = [-1, 31, 28, 31, 30, 31, 30, 31, 31, 30, 31, 30, 31]"

definition DAYS_BEFORE_MONTH :: "int list" where
  "DAYS_BEFORE_MONTH = [-1, 0, 31, 59, 90, 120, 151, 181, 212, 243, 273, 304, 334]"

definition is_leap :: "int \<Rightarrow> bool" where
  "is_leap y \<longleftrightarrow> y mod 4 = 0 \<and> (y mod 100 \<noteq> 0 \<or> y mod 400 = 0)"

definition days_before_year :: "int \<Rightarrow> int" where
  "days_before_year y = (y - 1) * 365 + (y - 1) div 4 - (y - 1) div 100 + (y - 1) div 400"

definition days_in_month :: "int \<Rightarrow> int \<Rightarrow> int" where
  "days_in_month y m = (if m = 2 \<and> is_leap y then 29 else DAYS_IN_MONTH ! nat m)"

definition days_before_month :: "int \<Rightarrow> int \<Rightarrow> int" where
  "days_before_month y m = DAYS_BEFORE_MONTH ! nat m + (if m > 2 \<and> is_leap y then 1 else 0)"

definition ymd2ord :: "int \<Rightarrow> int \<Rightarrow> int \<Rightarrow> int" where
  "ymd2ord y m d = days_before_year y + days_before_month y m + d"

definition DI400Y :: int where
  "DI400Y = 146097"

definition DI100Y :: int where
  "DI100Y = 36524"

definition DI4Y :: int where
  "DI4Y = 1461"

definition MAXORDINAL :: int where
  "MAXORDINAL = 3652059"

definition ord2ymd :: "int \<Rightarrow> date" where
  "ord2ymd n0 =
     (let n = n0 - 1;
          n400 = n div DI400Y; n = n mod DI400Y;
          y = n400 * 400 + 1;
          n100 = n div DI100Y; n = n mod DI100Y;
          n4 = n div DI4Y; n = n mod DI4Y;
          n1 = n div 365; n = n mod 365;
          y = y + (n100 * 100 + n4 * 4 + n1)
      in if n1 = 4 \<or> n100 = 4 then (y - 1, 12, 31)
         else
           let leapyear = (n1 = 3 \<and> (n4 \<noteq> 24 \<or> n100 = 3));
               m = (n + 50) div 32;
               preceding = DAYS_BEFORE_MONTH ! nat m + (if m > 2 \<and> leapyear then 1 else 0)
           in if preceding > n
              then let m = m - 1;
                       preceding = preceding
                         - (DAYS_IN_MONTH ! nat m + (if m = 2 \<and> leapyear then 1 else 0))
                   in (y, m, n - preceding + 1)
              else (y, m, n - preceding + 1))"

definition valid_date :: "date \<Rightarrow> bool" where
  "valid_date d \<longleftrightarrow>
     MINYEAR \<le> year d \<and> year d \<le> MAXYEAR \<and> 1 \<le> month d \<and> month d \<le> 12 \<and>
     1 \<le> day d \<and> day d \<le> days_in_month (year d) (month d)"

definition mk_date :: "int \<Rightarrow> int \<Rightarrow> int \<Rightarrow> py_error + date" where
  "mk_date y m d = (if valid_date (y, m, d) then Inr (y, m, d) else Inl ValueError)"

definition toordinal :: "date \<Rightarrow> int" where
  "toordinal d = ymd2ord (year d) (month d) (day d)"

definition fromordinal :: "int \<Rightarrow> date" where
  "fromordinal n = ord2ymd n"

definition weekday :: "date \<Rightarrow> int" where
  "weekday d = (toordinal d + 6) mod 7"

definition timedelta :: "int \<Rightarrow> py_error + int" where
  "timedelta days = (if \<bar>days\<bar> > 999999999 then Inl OverflowError else Inr days)"

definition date_diff :: "date \<Rightarrow> date \<Rightarrow> int" where
  "date_diff a b = toordinal a - toordinal b"

definition date_add :: "date \<Rightarrow> int \<Rightarrow> py_error + date" where
  "date_add d days =
     (let o' = toordinal d + days
      in if 0 < o' \<and> o' \<le> MAXORDINAL then Inr (fromordinal o') else Inl OverflowError)"

definition date_sub :: "date \<Rightarrow> int \<Rightarrow> py_error + date" where
  "date_sub d days = date_add d (- days)"

section \<open>The habit record and its streak operations (habit.py)\<close>

record Habit =
  name :: string
  periodicity :: string
  streak :: int
  last_completed :: "date option"
  streak_saves :: int
  longest_streak :: int

text \<open>What an operation prints, with the values it interpolates.\<close>

datatype message =
    PeriodicityUpdated string string
  | InvalidPeriodicity
  | StreakReset string date
  | StreakUpdated string int date
  | AlreadyCompleted string
  | StreakSaved string int int
  | NoStreakSaves string
  | HabitNotFound string
  | NameUpdated string
  | NameExists string
  | LongestStreakUpdated string int
  | InvalidLongestStreak
  | HabitSaved string

definition change_periodicity :: "string \<Rightarrow> Habit \<Rightarrow> Habit \<times> message list" where
  "change_periodicity new_periodicity h =
     (if new_periodicity \<in> set [''daily'', ''weekly'', ''monthly'']
      then (h\<lparr>periodicity := new_periodicity\<rparr>, [PeriodicityUpdated (name h) new_periodicity])
      else (h, [InvalidPeriodicity]))"

definition get_period_delta :: "Habit \<Rightarrow> int" where
  "get_period_delta h =
     (if periodicity h = ''daily'' then 1
      else if periodicity h = ''weekly'' then 7
      else if periodicity h = ''monthly'' then 30
      else 1)"

definition streak_reset :: "date \<Rightarrow> Habit \<Rightarrow> Habit \<times> message list" where
  "streak_reset today h =
     (case last_completed h of
        None \<Rightarrow> (h, [])
      | Some lc \<Rightarrow>
          let time_elapsed = date_diff today lc;
              period_delta = get_period_delta h
          in if time_elapsed > period_delta
             then (h\<lparr>streak := 0\<rparr>, [StreakReset (name h) lc])
             else (h, []))"

definition increment :: "date \<Rightarrow> Habit \<Rightarrow> Habit \<times> message list" where
  "increment today h =
     (if (case last_completed h of
            None \<Rightarrow> True
          | Some lc \<Rightarrow> date_diff today lc \<ge> get_period_delta h)
      then let h1 = h\<lparr>streak := streak h + 1\<rparr>;
               h2 = h1\<lparr>last_completed := Some today\<rparr>;
               h3 = (if streak h2 > longest_streak h2
                     then h2\<lparr>longest_streak := streak h2\<rparr> else h2)
           in (h3, [StreakUpdated (name h3) (streak h3) today])
      else (h, [AlreadyCompleted (name h)]))"

definition streak_save :: "date \<Rightarrow> Habit \<Rightarrow> Habit \<times> message list" where
  "streak_save today h =
     (if streak_saves h > 0
      then let h1 = h\<lparr>streak_saves := streak_saves h - 1\<rparr>;
               h2 = h1\<lparr>last_completed := Some today\<rparr>
           in (h2, [StreakSaved (name h2) (streak h2) (streak_saves h2)])
      else (h, [NoStreakSaves (name h)]))"

section \<open>The tracker and its store (tracker.py, db.py)\<close>

text \<open>
  The store is the two tables of db.py: a row of \<^verbatim>\<open>habits\<close> is an id with the habit's
  columns, a row of \<^verbatim>\<open>completions\<close> a habit id with a date. The date columns hold ISO
  text that the program writes from date objects and parses back; the model keeps the
  date. The sqlite3 binding stores a Python int as a 64-bit INTEGER and raises
  OverflowError for an int outside that range.
\<close>

record Tracker =
  habits :: "(int \<times> Habit) list"
  completions :: "(int \<times> date) list"

definition get_habit :: "Tracker \<Rightarrow> string \<Rightarrow> Habit option" where
  "get_habit tr nm = map_option snd (find (\<lambda>row. name (snd row) = nm) (habits tr))"

definition get_habit_id :: "Tracker \<Rightarrow> string \<Rightarrow> int option" where
  "get_habit_id tr nm = map_option fst (find (\<lambda>row. name (snd row) = nm) (habits tr))"

text \<open>\<^verbatim>\<open>UPDATE habits SET ... WHERE name=?\<close>: the assignment applied to every matching row.\<close>

definition update_where_name :: "string \<Rightarrow> (Habit \<Rightarrow> Habit) \<Rightarrow> Tracker \<Rightarrow> Tracker" where
  "update_where_name nm f tr =
     tr\<lparr>habits := map (\<lambda>row. if name (snd row) = nm then (fst row, f (snd row)) else row)
                     (habits tr)\<rparr>"

definition sqlite_int :: "int \<Rightarrow> bool" where
  "sqlite_int v \<longleftrightarrow> - (2 ^ 63) \<le> v \<and> v < 2 ^ 63"

definition update_habit :: "Habit \<Rightarrow> Tracker \<Rightarrow> py_error + Tracker \<times> message list" where
  "update_habit habit tr =
     (if sqlite_int (streak habit) \<and> sqlite_int (streak_saves habit) \<and>
         sqlite_int (longest_streak habit)
      then Inr (update_where_name (name habit)
                  (\<lambda>r. r\<lparr>streak := streak habit, last_completed := last_completed habit,
                         streak_saves := streak_saves habit,
                         longest_streak := longest_streak habit\<rparr>) tr,
                [HabitSaved (name habit)])
      else Inl OverflowError)"

definition save_habit :: "Habit \<Rightarrow> Tracker \<Rightarrow> py_error + Tracker \<times> message list" where
  "save_habit habit tr = update_habit habit tr"

text \<open>
  The rename of edit_habit. The column \<^verbatim>\<open>name\<close> is UNIQUE: an update that would leave two
  rows with one name raises IntegrityError (\<open>None\<close>) and changes nothing.
\<close>

definition rename_rows :: "string \<Rightarrow> string \<Rightarrow> Tracker \<Rightarrow> Tracker option" where
  "rename_rows nm new_name tr =
     (let tr' = update_where_name nm (\<lambda>r. r\<lparr>name := new_name\<rparr>) tr
      in if distinct (map (\<lambda>row. name (snd row)) (habits tr')) then Some tr' else None)"

text \<open>
  edit_habit runs three blocks in turn on the row store, the fetched habit object and
  the output: the rename (which alone can leave the function early), the periodicity
  and the longest streak. Each block is one definition. The UPDATE of the longest streak
  binds the new value, so a value beyond 64 bits raises OverflowError there; nothing in
  edit_habit catches it.
\<close>

definition edit_new_name ::
  "string \<Rightarrow> string option \<Rightarrow> Tracker \<Rightarrow> Habit
     \<Rightarrow> message list + Tracker \<times> Habit \<times> message list" where
  "edit_new_name nm new_name tr habit =
     (if new_name \<noteq> None \<and> new_name \<noteq> Some []
      then (case rename_rows nm (the new_name) tr of
              None \<Rightarrow> Inl [NameExists (the new_name)]
            | Some tr1 \<Rightarrow> Inr (tr1, habit\<lparr>name := the new_name\<rparr>, [NameUpdated (the new_name)]))
      else Inr (tr, habit, []))"

definition edit_new_periodicity ::
  "string option \<Rightarrow> Tracker \<Rightarrow> Habit \<Rightarrow> Tracker \<times> Habit \<times> message list" where
  "edit_new_periodicity new_periodicity tr habit =
     (if new_periodicity \<noteq> None \<and> new_periodicity \<noteq> Some [] \<and>
         the new_periodicity \<in> set [''daily'', ''weekly'', ''monthly'']
      then (update_where_name (name habit) (\<lambda>r. r\<lparr>periodicity := the new_periodicity\<rparr>) tr,
            habit\<lparr>periodicity := the new_periodicity\<rparr>,
            [PeriodicityUpdated (name habit) (the new_periodicity)])
      else if new_periodicity \<noteq> None \<and> new_periodicity \<noteq> Some []
      then (tr, habit, [InvalidPeriodicity])
      else (tr, habit, []))"

definition edit_new_longest_streak ::
  "int option \<Rightarrow> Tracker \<Rightarrow> Habit \<Rightarrow> py_error + Tracker \<times> Habit \<times> message list" where
  "edit_new_longest_streak new_longest_streak tr habit =
     (if new_longest_streak \<noteq> None \<and> the new_longest_streak \<ge> 0
      then if sqlite_int (the new_longest_streak)
           then Inr (update_where_name (name habit)
                       (\<lambda>r. r\<lparr>longest_streak := the new_longest_streak\<rparr>) tr,
                     habit\<lparr>longest_streak := the new_longest_streak\<rparr>,
                     [LongestStreakUpdated (name habit) (the new_longest_streak)])
           else Inl OverflowError
      else if new_longest_streak \<noteq> None
      then Inr (tr, habit, [InvalidLongestStreak])
      else Inr (tr, habit, []))"

definition edit_habit ::
  "string \<Rightarrow> string option \<Rightarrow> string option \<Rightarrow> int option \<Rightarrow> Tracker
     \<Rightarrow> py_error + Tracker \<times> Habit option \<times> message list" where
  "edit_habit nm new_name new_periodicity new_longest_streak tr =
     (case get_habit tr nm of
        None \<Rightarrow> Inr (tr, None, [HabitNotFound nm])
      | Some habit \<Rightarrow>
          (case edit_new_name nm new_name tr habit of
             Inl out \<Rightarrow> Inr (tr, None, out)
           | Inr (tr1, habit1, out1) \<Rightarrow>
               let (tr2, habit2, out2) = edit_new_periodicity new_periodicity tr1 habit1
               in case edit_new_longest_streak new_longest_streak tr2 habit2 of
                    Inl e \<Rightarrow> Inl e
                  | Inr (tr3, habit3, out3) \<Rightarrow>
                      (case save_habit habit3 tr3 of
                         Inl e \<Rightarrow> Inl e
                       | Inr (tr4, out4) \<Rightarrow>
                           Inr (tr4, Some habit3, out1 @ out2 @ out3 @ out4))))"

text \<open>
  The completions of a habit. The table has UNIQUE(habit_id, completion_date), and
  SQLite answers this query, which has no ORDER BY, from the index of that constraint:
  the rows of one habit come back in the order of their date text, which for ISO dates
  is the order of the dates.
\<close>

definition get_completion_history :: "Tracker \<Rightarrow> string \<Rightarrow> date list" where
  "get_completion_history tr habit_name =
     (case get_habit_id tr habit_name of
        None \<Rightarrow> []
      | Some habit_id \<Rightarrow>
          if habit_id \<noteq> 0
          then sort (map snd (filter (\<lambda>c. fst c = habit_id) (completions tr)))
          else [])"

text \<open>The invariant of the data model: the longest streak is at least the streak.\<close>

definition streak_le_longest :: "Habit \<Rightarrow> bool" where
  "streak_le_longest h \<longleftrightarrow> streak h \<le> longest_streak h"

definition rows_ok :: "Tracker \<Rightarrow> bool" where
  "rows_ok tr \<longleftrightarrow> (\<forall>row \<in> set (habits tr). streak_le_longest (snd row))"

section \<open>Dictionaries and dateutil's relativedelta\<close>

text \<open>
  A Python dict keeps its keys in insertion order, and assigning to a key it holds keeps
  the key's place: a dict is an association list with distinct keys. A
  \<^verbatim>\<open>defaultdict(int)\<close> reads a missing key as 0.
\<close>

definition dict_set :: "('k \<times> 'v) list \<Rightarrow> 'k \<Rightarrow> 'v \<Rightarrow> ('k \<times> 'v) list" where
  "dict_set d k v =
     (if k \<in> fst ` set d then map (\<lambda>kv. if fst kv = k then (k, v) else kv) d
      else d @ [(k, v)])"

definition dict_get_default :: "('k \<times> int) list \<Rightarrow> 'k \<Rightarrow> int" where
  "dict_get_default d k = (case map_of d k of None \<Rightarrow> 0 | Some v \<Rightarrow> v)"

definition dict_of_items :: "('k \<times> 'v) list \<Rightarrow> ('k \<times> 'v) list" where
  "dict_of_items kvs = foldl (\<lambda>d kv. dict_set d (fst kv) (snd kv)) [] kvs"

text \<open>
  \<^verbatim>\<open>relativedelta(months=n)\<close> normalises itself to whole years and fewer than 12 months of
  the sign of n. Adding it to a date moves the year and the month, clips the day to the
  length of the new month and builds the date, which raises ValueError outside the years
  1 to 9999. (The library then adds a zero timedelta, which is the identity on a date:
  lemma \<open>date_add_zero\<close>.) Subtracting adds the negation.
\<close>

definition relativedelta_months :: "int \<Rightarrow> int \<times> int" where
  "relativedelta_months n =
     (if \<bar>n\<bar> > 11
      then let s = (if n < 0 then - 1 else 1)
           in (((n * s) div 12) * s, ((n * s) mod 12) * s)
      else (0, n))"

definition relativedelta_neg :: "int \<times> int \<Rightarrow> int \<times> int" where
  "relativedelta_neg rd = (- fst rd, - snd rd)"

definition relativedelta_add :: "date \<Rightarrow> int \<times> int \<Rightarrow> py_error + date" where
  "relativedelta_add dt rd =
     (let y = year dt + fst rd;
          m = month dt + snd rd;
          (y, m) = (if snd rd \<noteq> 0 \<and> m > 12 then (y + 1, m - 12)
                    else if snd rd \<noteq> 0 \<and> m < 1 then (y - 1, m + 12)
                    else (y, m));
          d = min (days_in_month y m) (day dt)
      in mk_date y m d)"

definition relativedelta_sub :: "date \<Rightarrow> int \<times> int \<Rightarrow> py_error + date" where
  "relativedelta_sub dt rd = relativedelta_add dt (relativedelta_neg rd)"

section \<open>The trend aggregation (analyse.py)\<close>

fun daily_loop ::
  "date list \<Rightarrow> date \<Rightarrow> int list \<Rightarrow> (date \<times> int) list \<Rightarrow> py_error + (date \<times> int) list" where
  "daily_loop history start_date [] trend = Inr trend"
| "daily_loop history start_date (n # ns) trend =
     (case timedelta n of
        Inl e \<Rightarrow> Inl e
      | Inr td \<Rightarrow>
          (case date_add start_date td of
             Inl e \<Rightarrow> Inl e
           | Inr dy \<Rightarrow>
               daily_loop history start_date ns
                 (dict_set trend dy (if dy \<in> set history then 1 else 0))))"

definition calculate_daily_trend ::
  "Tracker \<Rightarrow> date \<Rightarrow> string \<Rightarrow> int \<Rightarrow> py_error + (date \<times> int) list" where
  "calculate_daily_trend tr today habit_name num_days =
     (case get_habit tr habit_name of
        None \<Rightarrow> Inr []
      | Some habit \<Rightarrow>
          let history = get_completion_history tr habit_name;
              end_date = today
          in case timedelta (num_days - 1) of
               Inl e \<Rightarrow> Inl e
             | Inr td \<Rightarrow>
                 (case date_sub end_date td of
                    Inl e \<Rightarrow> Inl e
                  | Inr start_date \<Rightarrow>
                      daily_loop history start_date (map int [0..<nat num_days]) []))"



function month_starts_loop ::
  "date \<Rightarrow> date \<Rightarrow> date set \<Rightarrow> (date \<times> int) list
     \<Rightarrow> py_error + date set \<times> (date \<times> int) list" where
  "month_starts_loop first_day_current_month current_month_start expected_month_starts trend =
     (case relativedelta_add first_day_current_month (relativedelta_months 1) of
        Inl e \<Rightarrow> Inl e
      | Inr bound \<Rightarrow>
          if current_month_start < bound
          then (case relativedelta_add current_month_start (relativedelta_months 1) of
                  Inl e \<Rightarrow> Inl e
                | Inr next_month_start \<Rightarrow>
                    month_starts_loop first_day_current_month next_month_start
                      (insert current_month_start expected_month_starts)
                      (dict_set trend current_month_start 0))
          else Inr (expected_month_starts, trend))"
  by pat_completeness auto
termination
proof (relation "measure (\<lambda>(f, c, e, t).
    if 1 \<le> year c \<and> year c \<le> 9999 \<and> 1 \<le> month c \<and> month c \<le> 12
    then nat (120000 - (12 * year c + month c)) else 120000)")
  show "wf (measure (\<lambda>(f, c, e, t).
    if 1 \<le> year c \<and> year c \<le> 9999 \<and> 1 \<le> month c \<and> month c \<le> 12
    then nat (120000 - (12 * year c + month c)) else 120000))"
    by simp
next
  fix f c :: date and e :: "date set" and t :: "(date \<times> int) list" and b n :: date
  assume "relativedelta_add c (relativedelta_months 1) = Inr n"
  then have v: "valid_date n"
    and n: "year n = (if month c + 1 > 12 then year c + 1 else if month c + 1 < 1 then year c - 1
                      else year c)"
       "month n = (if month c + 1 > 12 then month c + 1 - 12
                   else if month c + 1 < 1 then month c + 1 + 12 else month c + 1)"
    by (auto simp: relativedelta_add_def relativedelta_months_def mk_date_def Let_def
        year_def month_def split: if_splits)
  from v have r: "1 \<le> year n" "year n \<le> 9999" "1 \<le> month n" "month n \<le> 12"
    by (simp_all add: valid_date_def MINYEAR_def MAXYEAR_def)
  show "((f, n, insert c e, dict_set t c 0), (f, c, e, t)) \<in> measure (\<lambda>(f, c, e, t).
    if 1 \<le> year c \<and> year c \<le> 9999 \<and> 1 \<le> month c \<and> month c \<le> 12
    then nat (120000 - (12 * year c + month c)) else 120000)"
    using r n by (auto split: if_splits)
qed

declare month_starts_loop.simps [simp del]

fun monthly_count_loop ::
  "date \<Rightarrow> date \<Rightarrow> date set \<Rightarrow> date list \<Rightarrow> (date \<times> int) list
     \<Rightarrow> py_error + (date \<times> int) list" where
  "monthly_count_loop start_date end_date expected_month_starts [] trend = Inr trend"
| "monthly_count_loop start_date end_date expected_month_starts (completion_date # history) trend =
     (if start_date \<le> completion_date \<and> completion_date \<le> end_date
      then (case mk_date (year completion_date) (month completion_date) 1 of
              Inl e \<Rightarrow> Inl e
            | Inr month_start \<Rightarrow>
                if month_start \<in> expected_month_starts
                then monthly_count_loop start_date end_date expected_month_starts history
                       (dict_set trend month_start (dict_get_default trend month_start + 1))
                else monthly_count_loop start_date end_date expected_month_starts history trend)
      else monthly_count_loop start_date end_date expected_month_starts history trend)"

definition calculate_monthly_trend ::
  "Tracker \<Rightarrow> date \<Rightarrow> string \<Rightarrow> int \<Rightarrow> py_error + (date \<times> int) list" where
  "calculate_monthly_trend tr today habit_name num_months =
     (case get_habit tr habit_name of
        None \<Rightarrow> Inr []
      | Some habit \<Rightarrow>
          let history = get_completion_history tr habit_name;
              end_date = today
          in case mk_date (year end_date) (month end_date) 1 of
               Inl e \<Rightarrow> Inl e
             | Inr first_day_current_month \<Rightarrow>
                 (case relativedelta_sub first_day_current_month
                         (relativedelta_months num_months) of
                    Inl e \<Rightarrow> Inl e
                  | Inr start_date \<Rightarrow>
                      (case month_starts_loop first_day_current_month start_date {} [] of
                         Inl e \<Rightarrow> Inl e
                       | Inr (expected_month_starts, trend0) \<Rightarrow>
                           (case monthly_count_loop start_date end_date expected_month_starts
                                   history trend0 of
                              Inl e \<Rightarrow> Inl e
                            | Inr trend \<Rightarrow> Inr (dict_of_items (sort trend))))))"

text \<open>
  For stating the monthly window: months counted from year 0, and the first day of the
  month with a given count.
\<close>

definition month_index :: "date \<Rightarrow> int" where
  "month_index d = 12 * year d + (month d - 1)"

definition month_start_of_index :: "int \<Rightarrow> date" where
  "month_start_of_index i = (i div 12, i mod 12 + 1, 1)"


section \<open>Example habits for the concrete instances\<close>

definition stretch :: Habit where
  "stretch = \<lparr>name = ''Stretch'', periodicity = ''daily'', streak = 1,
     last_completed = Some (2025, 4, 14), streak_saves = 1, longest_streak = 1\<rparr>"

definition plan_week :: Habit where
  "plan_week = \<lparr>name = ''Plan Week'', periodicity = ''weekly'', streak = 1,
     last_completed = Some (2025, 4, 13), streak_saves = 0, longest_streak = 1\<rparr>"

definition walk :: Habit where
  "walk = \<lparr>name = ''Walk'', periodicity = ''daily'', streak = 5,
     last_completed = Some (2025, 4, 13), streak_saves = 0, longest_streak = 5\<rparr>"

definition fortnight :: Habit where
  "fortnight = \<lparr>name = ''Review'', periodicity = ''fortnightly'', streak = 2,
     last_completed = Some (2025, 4, 14), streak_saves = 0, longest_streak = 3\<rparr>"

definition one_habit :: Tracker where
  "one_habit = \<lparr>habits = [(1, walk)], completions = []\<rparr>"

definition two_habits :: Tracker where
  "two_habits = \<lparr>habits = [(1, walk), (2, stretch)], completions = []\<rparr>"

definition walk_log :: Tracker where
  "walk_log = \<lparr>habits = [(1, walk), (2, stretch)],
     completions = [(1, (2024, 1, 15)), (1, (2024, 1, 1)), (2, (2024, 1, 16)),
                    (1, (2024, 1, 17)), (1, (2023, 12, 31))]\<rparr>"


section \<open>The calendar: ordinals and dates determine each other\<close>

lemma div_succ:
  fixes x c :: int
  assumes "0 < c"
  shows "(x + 1) div c = x div c + (if (x + 1) mod c = 0 then 1 else 0)"
proof -
  define q r where "q = x div c" and "r = x mod c"
  have x: "x = c * q + r" and r: "0 \<le> r" "r < c"
    using assms by (simp_all add: q_def r_def)
  show ?thesis
  proof (cases "r + 1 = c")
    case True
    then have e: "x + 1 = c * (q + 1) + 0" using x by (simp add: algebra_simps)
    have "(x + 1) div c = q + 1"
      by (rule int_div_pos_eq [OF e]) (use assms in simp_all)
    moreover have "(x + 1) mod c = 0"
      by (rule int_mod_pos_eq [OF e]) (use assms in simp_all)
    ultimately show ?thesis by (simp add: q_def)
  next
    case False
    then have e: "x + 1 = c * q + (r + 1)" and b: "0 \<le> r + 1" "r + 1 < c"
      using x r by simp_all
    have "(x + 1) div c = q"
      by (rule int_div_pos_eq [OF e b])
    moreover have "(x + 1) mod c = r + 1"
      by (rule int_mod_pos_eq [OF e b])
    ultimately show ?thesis using r by (simp add: q_def)
  qed
qed

lemma mod_100_4:
  fixes y :: int assumes "y mod 100 = 0" shows "y mod 4 = 0"
proof -
  from assms have "100 dvd y" by (rule mod_0_imp_dvd)
  moreover have "(4::int) dvd 100" by simp
  ultimately have "4 dvd y" using dvd_trans by blast
  then show ?thesis by (rule dvd_imp_mod_0)
qed

lemma mod_400_100:
  fixes y :: int assumes "y mod 400 = 0" shows "y mod 100 = 0"
proof -
  from assms have "400 dvd y" by (rule mod_0_imp_dvd)
  moreover have "(100::int) dvd 400" by simp
  ultimately have "100 dvd y" using dvd_trans by blast
  then show ?thesis by (rule dvd_imp_mod_0)
qed

lemma leap_count:
  fixes p q r :: bool
  assumes "q \<longrightarrow> p" "r \<longrightarrow> q"
  shows "(if p then 1 else 0) - (if q then 1 else 0) + (if r then 1 else (0::int)) =
    (if p \<and> (\<not> q \<or> r) then 1 else 0)"
  using assms by (cases p; cases q; cases r) simp_all

lemma days_before_year_step:
  "days_before_year (y + 1) = days_before_year y + (if is_leap y then 366 else 365)"
proof -
  define A B C :: int where "A = (if y mod 4 = 0 then 1 else 0)"
    and "B = (if y mod 100 = 0 then 1 else 0)" and "C = (if y mod 400 = 0 then 1 else 0)"
  define p q r where "p = (y - 1) div 4" and "q = (y - 1) div 100" and "r = (y - 1) div 400"
  define p' q' r' where "p' = y div 4" and "q' = y div 100" and "r' = y div 400"
  have a: "p' = p + A"
    using div_succ [where x = "y - 1" and c = 4] by (simp add: p_def p'_def A_def)
  have b: "q' = q + B"
    using div_succ [where x = "y - 1" and c = 100] by (simp add: q_def q'_def B_def)
  have c: "r' = r + C"
    using div_succ [where x = "y - 1" and c = 400] by (simp add: r_def r'_def C_def)
  have d: "days_before_year (y + 1) = y * 365 + p' - q' + r'"
    by (simp add: days_before_year_def p'_def q'_def r'_def)
  have e: "days_before_year y = (y - 1) * 365 + p - q + r"
    by (simp add: days_before_year_def p_def q_def r_def)
  have l: "A - B + C = (if is_leap y then 1 else 0)"
    unfolding A_def B_def C_def is_leap_def
    by (rule leap_count) (use mod_100_4 [of y] mod_400_100 [of y] in blast)+
  have "days_before_year (y + 1) = days_before_year y + 365 + (A - B + C)"
    unfolding d e a b c by (simp add: algebra_simps)
  then show ?thesis unfolding l by simp
qed

lemma days_before_year_mono:
  assumes "y \<le> y'" shows "days_before_year y \<le> days_before_year y'"
  using assms
proof (induction y' rule: int_ge_induct)
  case base
  show ?case by simp
next
  case (step i)
  have "days_before_year i \<le> days_before_year (i + 1)"
    unfolding days_before_year_step by simp
  with step show ?case by simp
qed

lemma month_cases:
  fixes m :: int
  assumes "1 \<le> m" "m \<le> 12"
  obtains "m = 1" | "m = 2" | "m = 3" | "m = 4" | "m = 5" | "m = 6"
    | "m = 7" | "m = 8" | "m = 9" | "m = 10" | "m = 11" | "m = 12"
proof -
  have "m = 1 \<or> m = 2 \<or> m = 3 \<or> m = 4 \<or> m = 5 \<or> m = 6 \<or>
    m = 7 \<or> m = 8 \<or> m = 9 \<or> m = 10 \<or> m = 11 \<or> m = 12"
    using assms by presburger
  then show thesis using that by blast
qed

lemma days_before_month_step:
  assumes "1 \<le> m" "m \<le> 11"
  shows "days_before_month y (m + 1) = days_before_month y m + days_in_month y m"
proof -
  from assms have "1 \<le> m" "m \<le> 12" by simp_all
  then show ?thesis
    using assms(2)
    by (cases m rule: month_cases)
       (simp_all add: days_before_month_def days_in_month_def DAYS_BEFORE_MONTH_def
         DAYS_IN_MONTH_def)
qed

lemma days_before_month_last:
  "days_before_month y 12 + days_in_month y 12 = (if is_leap y then 366 else 365)"
  by (simp add: days_before_month_def days_in_month_def DAYS_BEFORE_MONTH_def
         DAYS_IN_MONTH_def)

lemma days_in_month_bounds:
  assumes "1 \<le> m" "m \<le> 12"
  shows "28 \<le> days_in_month y m \<and> days_in_month y m \<le> 31"
  using assms
  by (cases m rule: month_cases)
     (simp_all add: days_in_month_def DAYS_IN_MONTH_def)

lemma days_before_month_nonneg:
  assumes "1 \<le> m" "m \<le> 12"
  shows "0 \<le> days_before_month y m"
  using assms
  by (cases m rule: month_cases)
     (simp_all add: days_before_month_def DAYS_BEFORE_MONTH_def)

lemma ord2ymd_tail:
  fixes n :: int
  assumes "0 \<le> n" "n < 365"
  shows "\<exists>m d.
    (let m = (n + 50) div 32;
         preceding = DAYS_BEFORE_MONTH ! nat m + (if m > 2 \<and> leapyear then 1 else 0)
     in if preceding > n
        then let m = m - 1;
                 preceding = preceding
                   - (DAYS_IN_MONTH ! nat m + (if m = 2 \<and> leapyear then 1 else 0))
             in (y, m, n - preceding + 1)
        else (y, m, n - preceding + 1)) = (y, m, d) \<and>
    1 \<le> m \<and> m \<le> 12 \<and> 1 \<le> d \<and>
    d \<le> (if m = 2 \<and> leapyear then 29 else DAYS_IN_MONTH ! nat m) \<and>
    DAYS_BEFORE_MONTH ! nat m + (if m > 2 \<and> leapyear then 1 else 0) + d = n + 1"
proof -
  define k where "k = (n + 50) div 32"
  define r where "r = (n + 50) mod 32"
  have e: "n + 50 = 32 * k + r" by (simp add: k_def r_def)
  have r: "0 \<le> r" "r < 32" by (simp_all add: r_def)
  from e r assms have "1 \<le> k" "k \<le> 12" by linarith+
  then show ?thesis
    unfolding k_def [symmetric] Let_def
    using e r assms
    by (cases k rule: month_cases)
       (auto simp: DAYS_BEFORE_MONTH_def DAYS_IN_MONTH_def)
qed

lemma year_decomp:
  fixes q a b c :: int
  assumes "0 \<le> a" "a \<le> 3" "0 \<le> b" "b \<le> 24" "0 \<le> c" "c \<le> 3"
  shows "days_before_year (q * 400 + 1 + (a * 100 + b * 4 + c)) =
      q * 146097 + a * 36524 + b * 1461 + c * 365"
    and "is_leap (q * 400 + 1 + (a * 100 + b * 4 + c)) \<longleftrightarrow> c = 3 \<and> (b \<noteq> 24 \<or> a = 3)"
proof -
  define Y where "Y = q * 400 + 1 + (a * 100 + b * 4 + c)"
  have d4: "(Y - 1) div 4 = 100 * q + 25 * a + b"
    by (rule int_div_pos_eq [where r = c]) (use assms in \<open>simp_all add: Y_def\<close>)
  have d100: "(Y - 1) div 100 = 4 * q + a"
    by (rule int_div_pos_eq [where r = "4 * b + c"]) (use assms in \<open>simp_all add: Y_def\<close>)
  have d400: "(Y - 1) div 400 = q"
    by (rule int_div_pos_eq [where r = "100 * a + 4 * b + c"])
       (use assms in \<open>simp_all add: Y_def\<close>)
  show "days_before_year (q * 400 + 1 + (a * 100 + b * 4 + c)) =
      q * 146097 + a * 36524 + b * 1461 + c * 365"
    unfolding Y_def [symmetric] days_before_year_def d4 d100 d400
    by (simp add: Y_def)
  have m4: "Y mod 4 = (if c = 3 then 0 else c + 1)"
  proof (cases "c = 3")
    case True
    have "Y mod 4 = 0"
      by (rule int_mod_pos_eq [where q = "100 * q + 25 * a + b + 1"])
         (use True in \<open>simp_all add: Y_def\<close>)
    with True show ?thesis by simp
  next
    case False
    have "Y mod 4 = c + 1"
      by (rule int_mod_pos_eq [where q = "100 * q + 25 * a + b"])
         (use False assms in \<open>simp_all add: Y_def\<close>)
    with False show ?thesis by simp
  qed
  have m100: "Y mod 100 = (if b = 24 \<and> c = 3 then 0 else 4 * b + c + 1)"
  proof (cases "b = 24 \<and> c = 3")
    case True
    have "Y mod 100 = 0"
      by (rule int_mod_pos_eq [where q = "4 * q + a + 1"])
         (use True in \<open>simp_all add: Y_def\<close>)
    with True show ?thesis by simp
  next
    case False
    have "Y mod 100 = 4 * b + c + 1"
      by (rule int_mod_pos_eq [where q = "4 * q + a"])
         (use False assms in \<open>auto simp: Y_def\<close>)
    with False show ?thesis by simp
  qed
  have m400: "Y mod 400 = (if a = 3 \<and> b = 24 \<and> c = 3 then 0 else 100 * a + 4 * b + c + 1)"
  proof (cases "a = 3 \<and> b = 24 \<and> c = 3")
    case True
    have "Y mod 400 = 0"
      by (rule int_mod_pos_eq [where q = "q + 1"])
         (use True in \<open>simp_all add: Y_def\<close>)
    with True show ?thesis by simp
  next
    case False
    have "Y mod 400 = 100 * a + 4 * b + c + 1"
      by (rule int_mod_pos_eq [where q = q])
         (use False assms in \<open>auto simp: Y_def\<close>)
    with False show ?thesis by simp
  qed
  show "is_leap (q * 400 + 1 + (a * 100 + b * 4 + c)) \<longleftrightarrow> c = 3 \<and> (b \<noteq> 24 \<or> a = 3)"
    unfolding Y_def [symmetric] is_leap_def m4 m100 m400
    using assms by auto
qed

lemma divmod_facts:
  fixes x c :: int
  assumes "0 < c" "0 \<le> x"
  shows "x = c * (x div c) + x mod c" "0 \<le> x mod c" "x mod c < c" "0 \<le> x div c"
  using assms by (simp_all add: pos_imp_zdiv_nonneg_iff)

lemma ord2ymd_correct:
  assumes "1 \<le> n" "n \<le> MAXORDINAL"
  shows "valid_date (ord2ymd n) \<and> toordinal (ord2ymd n) = n"
proof -
  define q where "q = (n - 1) div 146097"
  define r400 where "r400 = (n - 1) mod 146097"
  define a where "a = r400 div 36524"
  define r100 where "r100 = r400 mod 36524"
  define b where "b = r100 div 1461"
  define r4 where "r4 = r100 mod 1461"
  define c where "c = r4 div 365"
  define r1 where "r1 = r4 mod 365"
  define Y where "Y = q * 400 + 1 + (a * 100 + b * 4 + c)"
  define L where "L \<longleftrightarrow> c = 3 \<and> (b \<noteq> 24 \<or> a = 3)"
  have n: "0 \<le> n - 1" "n - 1 \<le> 3652058"
    using assms by (simp_all add: MAXORDINAL_def)
  have f400: "n - 1 = 146097 * q + r400" "0 \<le> r400" "r400 < 146097" "0 \<le> q"
    unfolding q_def r400_def using divmod_facts [of 146097 "n - 1"] n by simp_all
  have f100: "r400 = 36524 * a + r100" "0 \<le> r100" "r100 < 36524" "0 \<le> a"
    unfolding a_def r100_def using divmod_facts [of 36524 r400] f400 by simp_all
  have f4: "r100 = 1461 * b + r4" "0 \<le> r4" "r4 < 1461" "0 \<le> b"
    unfolding b_def r4_def using divmod_facts [of 1461 r100] f100 by simp_all
  have f1: "r4 = 365 * c + r1" "0 \<le> r1" "r1 < 365" "0 \<le> c"
    unfolding c_def r1_def using divmod_facts [of 365 r4] f4 by simp_all
  have ba: "a \<le> 4" using f400 f100 by linarith
  have bb: "b \<le> 24" using f100 f4 by linarith
  have bc: "c \<le> 4" using f4 f1 by linarith
  have u: "ord2ymd n =
      (if c = 4 \<or> a = 4 then (Y - 1, 12, 31)
       else
         let m = (r1 + 50) div 32;
             preceding = DAYS_BEFORE_MONTH ! nat m + (if m > 2 \<and> L then 1 else 0)
         in if preceding > r1
            then let m = m - 1;
                     preceding = preceding
                       - (DAYS_IN_MONTH ! nat m + (if m = 2 \<and> L then 1 else 0))
                 in (Y, m, r1 - preceding + 1)
            else (Y, m, r1 - preceding + 1))"
    unfolding ord2ymd_def DI400Y_def DI100Y_def DI4Y_def Let_def L_def Y_def r1_def c_def
      r4_def b_def r100_def a_def r400_def q_def
    by (rule refl)
  show ?thesis
  proof (cases "c = 4 \<or> a = 4")
    case True
    have z: "days_before_year (Y - 1) = n - 366 \<and> is_leap (Y - 1) \<and> 1 \<le> Y - 1 \<and> Y - 1 \<le> 9999"
    proof (cases "a = 4")
      case a4: True
      have v: "r100 = 0" "b = 0" "r4 = 0" "c = 0" "r1 = 0"
        using a4 f400 f100 f4 f1 by linarith+
      have e: "Y - 1 = q * 400 + 1 + (3 * 100 + 24 * 4 + 3)"
        by (simp add: Y_def a4 v)
      have "q \<le> 23" using f400 f100 a4 n by linarith
      then show ?thesis
        unfolding e using year_decomp [of 3 24 3 q] f400 f100 a4 v by simp
    next
      case a4: False
      with True ba have c4: "c = 4" and a3: "a \<le> 3" by simp_all
      have v: "r1 = 0" "b \<le> 23"
        using c4 f100 f4 f1 by linarith+
      have e: "Y - 1 = q * 400 + 1 + (a * 100 + b * 4 + 3)"
        by (simp add: Y_def c4)
      have "q * 400 + 1 + (a * 100 + b * 4 + 3) \<le> 9999"
        using f400 f100 f4 f1 a3 c4 v n by linarith
      then show ?thesis
        unfolding e using year_decomp [of a b 3 q] f400 f100 f4 f1 a3 c4 v by simp
    qed
    have t: "ord2ymd n = (Y - 1, 12, 31)"
      unfolding u using True by simp
    have "valid_date (Y - 1, 12, 31)"
      using z
      by (simp add: valid_date_def year_def month_def day_def MINYEAR_def MAXYEAR_def
          days_in_month_def DAYS_IN_MONTH_def)
    moreover have "toordinal (Y - 1, 12, 31) = n"
      using z
      by (simp add: toordinal_def ymd2ord_def year_def month_def day_def
          days_before_month_def DAYS_BEFORE_MONTH_def)
    ultimately show ?thesis by (simp add: t)
  next
    case False
    with ba bc have a3: "a \<le> 3" and c3: "c \<le> 3" by simp_all
    have yd: "days_before_year Y = q * 146097 + a * 36524 + b * 1461 + c * 365"
      and yl: "is_leap Y \<longleftrightarrow> L"
      unfolding Y_def L_def using year_decomp [of a b c q] a3 c3 bb f100 f4 f1 by simp_all
    have yb: "1 \<le> Y" "Y \<le> 9999"
      unfolding Y_def using f400 f100 f4 f1 a3 c3 bb n by linarith+
    from ord2ymd_tail [OF f1(2) f1(3), of L Y] obtain m d where
      t: "ord2ymd n = (Y, m, d)" and m: "1 \<le> m" "m \<le> 12" and d: "1 \<le> d"
        "d \<le> (if m = 2 \<and> L then 29 else DAYS_IN_MONTH ! nat m)"
      and s: "DAYS_BEFORE_MONTH ! nat m + (if m > 2 \<and> L then 1 else 0) + d = r1 + 1"
      unfolding u using False by auto
    have "valid_date (Y, m, d)"
      using yb m d yl
      by (simp add: valid_date_def year_def month_def day_def MINYEAR_def MAXYEAR_def
          days_in_month_def)
    moreover have "toordinal (Y, m, d) = n"
      using s f400 f100 f4 f1 yl
      by (simp add: toordinal_def ymd2ord_def year_def month_def day_def yd
          days_before_month_def)
    ultimately show ?thesis by (simp add: t)
  qed
qed

lemma days_before_month_mono:
  assumes "1 \<le> m" "m \<le> m'" "m' \<le> 12"
  shows "days_before_month y m \<le> days_before_month y m'"
  using assms(2,3)
proof (induction m' rule: int_ge_induct)
  case base
  show ?case by simp
next
  case (step i)
  then have "days_before_month y m \<le> days_before_month y i" by simp
  moreover have "days_before_month y (i + 1) = days_before_month y i + days_in_month y i"
    using step assms(1) by (intro days_before_month_step) simp_all
  moreover have "28 \<le> days_in_month y i"
    using days_in_month_bounds [of i y] step assms(1) by simp
  ultimately show ?case by simp
qed

lemma day_of_year_bounds:
  assumes "1 \<le> m" "m \<le> 12" "1 \<le> d" "d \<le> days_in_month y m"
  shows "1 \<le> days_before_month y m + d"
    and "days_before_month y m + d \<le> (if is_leap y then 366 else 365)"
proof -
  show "1 \<le> days_before_month y m + d"
    using days_before_month_nonneg [OF assms(1,2), of y] assms(3) by simp
  have "days_before_month y m \<le> days_before_month y 12"
    using assms by (intro days_before_month_mono) simp_all
  moreover have "m \<noteq> 12 \<Longrightarrow> days_before_month y m + days_in_month y m \<le> days_before_month y 12"
  proof -
    assume "m \<noteq> 12"
    with assms have m: "m \<le> 11" by simp
    have "days_before_month y (m + 1) \<le> days_before_month y 12"
      using m assms(1) by (intro days_before_month_mono) simp_all
    then show ?thesis using days_before_month_step [OF assms(1) m, of y] by simp
  qed
  moreover have "28 \<le> days_in_month y 12"
    using days_in_month_bounds [of 12 y] by simp
  ultimately show "days_before_month y m + d \<le> (if is_leap y then 366 else 365)"
    using days_before_month_last [of y] assms(4)
    by (cases "m = 12") (simp_all split: if_splits)
qed

lemma toordinal_year_bounds:
  assumes "valid_date d"
  shows "days_before_year (year d) < toordinal d"
    and "toordinal d \<le> days_before_year (year d + 1)"
proof -
  from assms have v: "1 \<le> month d" "month d \<le> 12" "1 \<le> day d"
    "day d \<le> days_in_month (year d) (month d)"
    by (simp_all add: valid_date_def)
  from day_of_year_bounds [OF v]
  show "days_before_year (year d) < toordinal d"
    and "toordinal d \<le> days_before_year (year d + 1)"
    by (simp_all add: toordinal_def ymd2ord_def days_before_year_step split: if_splits)
qed

lemma toordinal_bounds:
  assumes "valid_date d"
  shows "1 \<le> toordinal d" and "toordinal d \<le> MAXORDINAL"
proof -
  from assms have y: "1 \<le> year d" "year d \<le> 9999"
    by (simp_all add: valid_date_def MINYEAR_def MAXYEAR_def)
  have "days_before_year 1 \<le> days_before_year (year d)"
    using y by (intro days_before_year_mono) simp
  moreover have "days_before_year 1 = 0" by (simp add: days_before_year_def)
  ultimately show "1 \<le> toordinal d"
    using toordinal_year_bounds(1) [OF assms] by simp
  have "days_before_year (year d + 1) \<le> days_before_year 10000"
    using y by (intro days_before_year_mono) simp
  moreover have "days_before_year 10000 = 3652059" by (simp add: days_before_year_def)
  ultimately show "toordinal d \<le> MAXORDINAL"
    using toordinal_year_bounds(2) [OF assms] by (simp add: MAXORDINAL_def)
qed

lemma toordinal_strict_mono:
  assumes "valid_date d1" "valid_date d2" "d1 < d2"
  shows "toordinal d1 < toordinal d2"
proof -
  obtain y1 m1 e1 where d1: "d1 = (y1, m1, e1)" by (cases d1)
  obtain y2 m2 e2 where d2: "d2 = (y2, m2, e2)" by (cases d2)
  have "y1 < y2 \<or> (y1 = y2 \<and> m1 < m2) \<or> (y1 = y2 \<and> m1 = m2 \<and> e1 < e2)"
    using assms(3) unfolding d1 d2 by (auto simp: less_prod_def less_eq_prod_def)
  then consider "y1 < y2" | "y1 = y2" "m1 < m2" | "y1 = y2" "m1 = m2" "e1 < e2"
    by blast
  then show ?thesis
  proof cases
    case 1
    then have "days_before_year (year d1 + 1) \<le> days_before_year (year d2)"
      by (intro days_before_year_mono) (simp add: d1 d2 year_def)
    then show ?thesis
      using toordinal_year_bounds(2) [OF assms(1)] toordinal_year_bounds(1) [OF assms(2)]
      by simp
  next
    case 2
    from assms(1) have v1: "1 \<le> m1" "e1 \<le> days_in_month y1 m1"
      by (simp_all add: valid_date_def d1 year_def month_def day_def)
    from assms(2) have v2: "m2 \<le> 12" "1 \<le> e2"
      by (simp_all add: valid_date_def d2 year_def month_def day_def)
    have m: "m1 \<le> 11" using 2 v2 by simp
    have "days_before_month y1 (m1 + 1) \<le> days_before_month y1 m2"
      using 2 v1 v2 by (intro days_before_month_mono) simp_all
    then show ?thesis
      using days_before_month_step [OF v1(1) m, of y1] v1 v2 2
      by (simp add: toordinal_def ymd2ord_def d1 d2 year_def month_def day_def)
  next
    case 3
    then show ?thesis
      by (simp add: toordinal_def ymd2ord_def d1 d2 year_def month_def day_def)
  qed
qed

lemma toordinal_inj:
  assumes "valid_date d1" "valid_date d2" "toordinal d1 = toordinal d2"
  shows "d1 = d2"
proof (rule ccontr)
  assume "d1 \<noteq> d2"
  then have "d1 < d2 \<or> d2 < d1" by auto
  then show False
    using toordinal_strict_mono [OF assms(1,2)] toordinal_strict_mono [OF assms(2,1)] assms(3)
    by auto
qed

lemma fromordinal_toordinal:
  assumes "valid_date d"
  shows "fromordinal (toordinal d) = d"
proof -
  have "valid_date (ord2ymd (toordinal d)) \<and> toordinal (ord2ymd (toordinal d)) = toordinal d"
    using toordinal_bounds [OF assms] by (intro ord2ymd_correct)
  then show ?thesis
    unfolding fromordinal_def using assms by (intro toordinal_inj) simp_all
qed

lemma toordinal_fromordinal:
  assumes "1 \<le> n" "n \<le> MAXORDINAL"
  shows "valid_date (fromordinal n)" and "toordinal (fromordinal n) = n"
  using ord2ymd_correct [OF assms] by (simp_all add: fromordinal_def)

lemma date_less_iff:
  assumes "valid_date d1" "valid_date d2"
  shows "d1 < d2 \<longleftrightarrow> toordinal d1 < toordinal d2"
proof
  assume "d1 < d2"
  then show "toordinal d1 < toordinal d2" by (rule toordinal_strict_mono [OF assms])
next
  assume a: "toordinal d1 < toordinal d2"
  show "d1 < d2"
  proof (rule ccontr)
    assume "\<not> d1 < d2"
    then have "d2 < d1 \<or> d2 = d1" by auto
    then show False
      using toordinal_strict_mono [OF assms(2,1)] a by auto
  qed
qed

lemma date_add_zero:
  assumes "valid_date d"
  shows "date_add d 0 = Inr d"
  using toordinal_bounds [OF assms] fromordinal_toordinal [OF assms]
  by (simp add: date_add_def)

section \<open>Period lengths\<close>

lemma get_period_delta_pos: "0 < get_period_delta h"
  by (simp add: get_period_delta_def)

lemmas ordinal_simps =
  date_diff_def toordinal_def ymd2ord_def days_before_year_def days_before_month_def
  DAYS_BEFORE_MONTH_def is_leap_def year_def month_def day_def

text \<open>
  C9. The period length is 1 day for 'daily', 7 days for 'weekly' and 30 days for
  'monthly', whatever the other fields of the habit are.
\<close>

theorem get_period_delta_values:
  "get_period_delta (h\<lparr>periodicity := ''daily''\<rparr>) = 1 \<and>
   get_period_delta (h\<lparr>periodicity := ''weekly''\<rparr>) = 7 \<and>
   get_period_delta (h\<lparr>periodicity := ''monthly''\<rparr>) = 30"
  by (simp add: get_period_delta_def)

theorem get_period_delta_values_witness:
  "get_period_delta stretch = 1 \<and> get_period_delta plan_week = 7 \<and>
   get_period_delta (walk\<lparr>periodicity := ''monthly''\<rparr>) = 30"
  using get_period_delta_values [of stretch] get_period_delta_values [of plan_week]
    get_period_delta_values [of walk]
  by (simp add: stretch_def plan_week_def)

text \<open>
  C10. A periodicity outside daily, weekly and monthly gets the daily period of 1 day:
  the completion and the lapse check then behave as on the same habit with periodicity
  'daily' (the periodicity field itself apart).
\<close>

theorem get_period_delta_unrecognized:
  assumes "periodicity h \<notin> {''daily'', ''weekly'', ''monthly''}"
  shows "get_period_delta h = 1 \<and>
    get_period_delta h = get_period_delta (h\<lparr>periodicity := ''daily''\<rparr>) \<and>
    increment today h =
      (fst (increment today (h\<lparr>periodicity := ''daily''\<rparr>))\<lparr>periodicity := periodicity h\<rparr>,
       snd (increment today (h\<lparr>periodicity := ''daily''\<rparr>))) \<and>
    streak_reset today h =
      (fst (streak_reset today (h\<lparr>periodicity := ''daily''\<rparr>))\<lparr>periodicity := periodicity h\<rparr>,
       snd (streak_reset today (h\<lparr>periodicity := ''daily''\<rparr>)))"
proof -
  have d: "get_period_delta h = 1"
    using assms by (simp add: get_period_delta_def)
  have e: "get_period_delta h = get_period_delta (h\<lparr>periodicity := ''daily''\<rparr>)"
    using d by (simp add: get_period_delta_def)
  have i: "increment today h =
      (fst (increment today (h\<lparr>periodicity := ''daily''\<rparr>))\<lparr>periodicity := periodicity h\<rparr>,
       snd (increment today (h\<lparr>periodicity := ''daily''\<rparr>)))"
    using e by (simp add: increment_def Let_def split: option.split)
  have r: "streak_reset today h =
      (fst (streak_reset today (h\<lparr>periodicity := ''daily''\<rparr>))\<lparr>periodicity := periodicity h\<rparr>,
       snd (streak_reset today (h\<lparr>periodicity := ''daily''\<rparr>)))"
    using e by (simp add: streak_reset_def Let_def split: option.split)
  from d e i r show ?thesis by blast
qed

theorem get_period_delta_unrecognized_witness:
  "get_period_delta fortnight = 1 \<and>
   increment (2025, 4, 15) fortnight =
     (fortnight\<lparr>streak := 3, last_completed := Some (2025, 4, 15)\<rparr>,
      [StreakUpdated ''Review'' 3 (2025, 4, 15)])"
proof -
  have p: "periodicity fortnight \<notin> {''daily'', ''weekly'', ''monthly''}"
    by (simp add: fortnight_def)
  have "increment (2025, 4, 15) (fortnight\<lparr>periodicity := ''daily''\<rparr>) =
     (fortnight\<lparr>periodicity := ''daily'', streak := 3, last_completed := Some (2025, 4, 15)\<rparr>,
      [StreakUpdated ''Review'' 3 (2025, 4, 15)])"
    by (simp add: fortnight_def increment_def get_period_delta_def ordinal_simps)
  with get_period_delta_unrecognized [OF p, of "(2025, 4, 15)"] show ?thesis
    by (simp add: fortnight_def)
qed

section \<open>The completion operation\<close>

text \<open>
  C1. If last_completed is unset, or today minus last_completed is at least the period
  length, the completion adds exactly 1 to streak, sets last_completed to today and
  makes longest_streak the maximum of its old value and the new streak; otherwise it
  reports that the habit is already completed and changes no field.
\<close>

theorem increment_contract:
  "((case last_completed h of None \<Rightarrow> True
      | Some lc \<Rightarrow> get_period_delta h \<le> date_diff today lc) \<longrightarrow>
      increment today h =
        (h\<lparr>streak := streak h + 1, last_completed := Some today,
           longest_streak := max (longest_streak h) (streak h + 1)\<rparr>,
         [StreakUpdated (name h) (streak h + 1) today])) \<and>
   (\<not> (case last_completed h of None \<Rightarrow> True
      | Some lc \<Rightarrow> get_period_delta h \<le> date_diff today lc) \<longrightarrow>
      increment today h = (h, [AlreadyCompleted (name h)]))"
  by (simp add: increment_def Let_def max_def)

theorem increment_contract_witness:
  "increment (2025, 4, 15) stretch =
     (stretch\<lparr>streak := 2, last_completed := Some (2025, 4, 15), longest_streak := 2\<rparr>,
      [StreakUpdated ''Stretch'' 2 (2025, 4, 15)]) \<and>
   increment (2025, 4, 15) plan_week = (plan_week, [AlreadyCompleted ''Plan Week''])"
  using increment_contract [of stretch "(2025, 4, 15)"]
    increment_contract [of plan_week "(2025, 4, 15)"]
  by (simp add: stretch_def plan_week_def get_period_delta_def ordinal_simps)

text \<open>
  C3. A second completion with the same value of today reports that the habit is
  already completed and returns the habit exactly as the first call left it, for every
  habit and every periodicity.
\<close>

theorem increment_twice:
  "increment today (fst (increment today h)) =
     (fst (increment today h), [AlreadyCompleted (name h)])"
proof -
  have p: "\<not> get_period_delta h' \<le> 0" for h'
    using get_period_delta_pos [of h'] by simp
  have q: "get_period_delta (h\<lparr>streak := s, last_completed := l\<rparr>) = get_period_delta h"
    "get_period_delta (h\<lparr>streak := s, last_completed := l, longest_streak := g\<rparr>) =
       get_period_delta h" for s l g
    by (simp_all add: get_period_delta_def)
  show ?thesis
    by (simp add: increment_def Let_def date_diff_def p q split: option.split)
qed

theorem increment_twice_witness:
  "increment (2025, 4, 15) (fst (increment (2025, 4, 15) stretch)) =
     (stretch\<lparr>streak := 2, last_completed := Some (2025, 4, 15), longest_streak := 2\<rparr>,
      [AlreadyCompleted ''Stretch''])"
proof -
  have "fst (increment (2025, 4, 15) stretch) =
      stretch\<lparr>streak := 2, last_completed := Some (2025, 4, 15), longest_streak := 2\<rparr>"
    by (simp add: stretch_def increment_def get_period_delta_def ordinal_simps)
  with increment_twice [of "(2025, 4, 15)" stretch] show ?thesis
    by (simp add: stretch_def)
qed

section \<open>The lapse check\<close>

text \<open>
  C4. The lapse check sets streak to 0 exactly when last_completed is set and today
  minus last_completed is strictly greater than the period length; with last_completed
  unset it does nothing; and it never changes longest_streak, last_completed,
  streak_saves, periodicity or the name.
\<close>

theorem streak_reset_contract:
  "(\<forall>lc. last_completed h = Some lc \<and> get_period_delta h < date_diff today lc \<longrightarrow>
      streak_reset today h = (h\<lparr>streak := 0\<rparr>, [StreakReset (name h) lc])) \<and>
   (\<forall>lc. last_completed h = Some lc \<and> \<not> get_period_delta h < date_diff today lc \<longrightarrow>
      streak_reset today h = (h, [])) \<and>
   (last_completed h = None \<longrightarrow> streak_reset today h = (h, [])) \<and>
   longest_streak (fst (streak_reset today h)) = longest_streak h \<and>
   last_completed (fst (streak_reset today h)) = last_completed h \<and>
   streak_saves (fst (streak_reset today h)) = streak_saves h \<and>
   periodicity (fst (streak_reset today h)) = periodicity h \<and>
   name (fst (streak_reset today h)) = name h"
  by (simp add: streak_reset_def Let_def split: option.split)

theorem streak_reset_contract_witness:
  "streak_reset (2025, 4, 15) walk = (walk\<lparr>streak := 0\<rparr>, [StreakReset ''Walk'' (2025, 4, 13)]) \<and>
   streak_reset (2025, 4, 15) stretch = (stretch, []) \<and>
   streak_reset (2025, 4, 15) (walk\<lparr>last_completed := None\<rparr>) =
     (walk\<lparr>last_completed := None\<rparr>, []) \<and>
   longest_streak (fst (streak_reset (2025, 4, 15) walk)) = 5"
  using streak_reset_contract [of walk "(2025, 4, 15)"]
    streak_reset_contract [of stretch "(2025, 4, 15)"]
    streak_reset_contract [of "walk\<lparr>last_completed := None\<rparr>" "(2025, 4, 15)"]
  by (simp add: walk_def stretch_def get_period_delta_def ordinal_simps)

section \<open>The streak save\<close>

text \<open>
  C8. With a streak save left, the streak save takes one off streak_saves, sets
  last_completed to today, leaves streak and longest_streak as they are and reports
  success; with none left it reports that and changes no field.
\<close>

theorem streak_save_contract:
  "(0 < streak_saves h \<longrightarrow>
      streak_save today h =
        (h\<lparr>streak_saves := streak_saves h - 1, last_completed := Some today\<rparr>,
         [StreakSaved (name h) (streak h) (streak_saves h - 1)]) \<and>
      streak (fst (streak_save today h)) = streak h \<and>
      longest_streak (fst (streak_save today h)) = longest_streak h) \<and>
   (\<not> 0 < streak_saves h \<longrightarrow> streak_save today h = (h, [NoStreakSaves (name h)]))"
  by (simp add: streak_save_def Let_def)

theorem streak_save_contract_witness:
  "streak_save (2025, 4, 16) stretch =
     (stretch\<lparr>streak_saves := 0, last_completed := Some (2025, 4, 16)\<rparr>,
      [StreakSaved ''Stretch'' 1 0]) \<and>
   streak_save (2025, 4, 16) walk = (walk, [NoStreakSaves ''Walk''])"
  using streak_save_contract [of stretch "(2025, 4, 16)"]
    streak_save_contract [of walk "(2025, 4, 16)"]
  by (simp add: stretch_def walk_def)

section \<open>The invariant: the longest streak is at least the streak\<close>

lemma in_update_where_name:
  assumes "row' \<in> set (habits (update_where_name nm f tr))"
  shows "(row' \<in> set (habits tr) \<and> name (snd row') \<noteq> nm) \<or>
    (\<exists>row \<in> set (habits tr). name (snd row) = nm \<and> row' = (fst row, f (snd row)))"
proof -
  have "set (habits (update_where_name nm f tr)) =
      (\<lambda>row. if name (snd row) = nm then (fst row, f (snd row)) else row) ` set (habits tr)"
    by (simp add: update_where_name_def)
  with assms obtain row where r: "row \<in> set (habits tr)"
    and e: "row' = (if name (snd row) = nm then (fst row, f (snd row)) else row)"
    by blast
  show ?thesis
  proof (cases "name (snd row) = nm")
    case True
    with r e show ?thesis by auto
  next
    case False
    with r e show ?thesis by simp
  qed
qed

lemma update_where_name_rows_ok:
  assumes ok: "rows_ok tr"
    and f: "\<And>r. streak (f r) = streak r \<and> longest_streak (f r) = longest_streak r"
  shows "rows_ok (update_where_name nm f tr)"
  unfolding rows_ok_def
proof
  fix row' assume "row' \<in> set (habits (update_where_name nm f tr))"
  from in_update_where_name [OF this] show "streak_le_longest (snd row')"
  proof
    assume "row' \<in> set (habits tr) \<and> name (snd row') \<noteq> nm"
    then show ?thesis using ok by (simp add: rows_ok_def)
  next
    assume "\<exists>row \<in> set (habits tr). name (snd row) = nm \<and> row' = (fst row, f (snd row))"
    then obtain row where "row \<in> set (habits tr)" "row' = (fst row, f (snd row))" by blast
    moreover from this ok have "streak_le_longest (snd row)" by (simp add: rows_ok_def)
    ultimately show ?thesis using f [of "snd row"] by (simp add: streak_le_longest_def)
  qed
qed

lemma update_where_name_other_rows:
  assumes ok: "rows_ok tr"
    and f: "\<And>r. name (f r) = name r"
  shows "\<forall>row \<in> set (habits (update_where_name nm f tr)).
    name (snd row) \<noteq> nm \<longrightarrow> streak_le_longest (snd row)"
proof
  fix row' assume "row' \<in> set (habits (update_where_name nm f tr))"
  from in_update_where_name [OF this]
  show "name (snd row') \<noteq> nm \<longrightarrow> streak_le_longest (snd row')"
  proof
    assume "row' \<in> set (habits tr) \<and> name (snd row') \<noteq> nm"
    then show ?thesis using ok by (simp add: rows_ok_def)
  next
    assume "\<exists>row \<in> set (habits tr). name (snd row) = nm \<and> row' = (fst row, f (snd row))"
    then obtain row where "name (snd row) = nm" "row' = (fst row, f (snd row))" by blast
    then show ?thesis using f [of "snd row"] by simp
  qed
qed

lemma edit_new_name_keeps:
  assumes "edit_new_name nm new_name tr habit = Inr (tr1, habit1, out1)"
  shows "streak habit1 = streak habit \<and> longest_streak habit1 = longest_streak habit \<and>
    (rows_ok tr \<longrightarrow> rows_ok tr1)"
proof (cases "new_name \<noteq> None \<and> new_name \<noteq> Some []")
  case True
  with assms have t: "tr1 = update_where_name nm (\<lambda>r. r\<lparr>name := the new_name\<rparr>) tr"
    and h: "habit1 = habit\<lparr>name := the new_name\<rparr>"
    by (auto simp: edit_new_name_def rename_rows_def Let_def split: if_splits option.splits)
  show ?thesis
    unfolding t h using update_where_name_rows_ok [of tr "\<lambda>r. r\<lparr>name := the new_name\<rparr>" nm]
    by simp
next
  case False
  with assms show ?thesis by (auto simp: edit_new_name_def)
qed

lemma edit_new_periodicity_keeps:
  assumes "edit_new_periodicity new_periodicity tr1 habit1 = (tr2, habit2, out2)"
  shows "streak habit2 = streak habit1 \<and> longest_streak habit2 = longest_streak habit1 \<and>
    name habit2 = name habit1 \<and> (rows_ok tr1 \<longrightarrow> rows_ok tr2)"
proof (cases "new_periodicity \<noteq> None \<and> new_periodicity \<noteq> Some [] \<and>
    the new_periodicity \<in> set [''daily'', ''weekly'', ''monthly'']")
  case True
  with assms have t: "tr2 = update_where_name (name habit1)
      (\<lambda>r. r\<lparr>periodicity := the new_periodicity\<rparr>) tr1"
    and h: "habit2 = habit1\<lparr>periodicity := the new_periodicity\<rparr>"
    unfolding edit_new_periodicity_def by simp_all
  show ?thesis
    unfolding t h
    using update_where_name_rows_ok
      [of tr1 "\<lambda>r. r\<lparr>periodicity := the new_periodicity\<rparr>" "name habit1"]
    by simp
next
  case False
  with assms have "tr2 = tr1 \<and> habit2 = habit1"
    unfolding edit_new_periodicity_def by (simp split: if_splits)
  then show ?thesis by simp
qed

lemma edit_new_longest_streak_keeps:
  assumes "edit_new_longest_streak new_longest_streak tr2 habit2 = Inr (tr3, habit3, out3)"
  shows "streak habit3 = streak habit2 \<and> name habit3 = name habit2 \<and>
    longest_streak habit3 =
      (if new_longest_streak \<noteq> None \<and> the new_longest_streak \<ge> 0
       then the new_longest_streak else longest_streak habit2) \<and>
    (rows_ok tr2 \<longrightarrow>
       (\<forall>row \<in> set (habits tr3). name (snd row) \<noteq> name habit3 \<longrightarrow> streak_le_longest (snd row)))"
proof (cases "new_longest_streak \<noteq> None \<and> the new_longest_streak \<ge> 0")
  case True
  with assms have t: "tr3 = update_where_name (name habit2)
      (\<lambda>r. r\<lparr>longest_streak := the new_longest_streak\<rparr>) tr2"
    and h: "habit3 = habit2\<lparr>longest_streak := the new_longest_streak\<rparr>"
    unfolding edit_new_longest_streak_def by (simp_all split: if_splits)
  show ?thesis
    unfolding t h
    using True update_where_name_other_rows
      [of tr2 "\<lambda>r. r\<lparr>longest_streak := the new_longest_streak\<rparr>" "name habit2"]
    by simp
next
  case False
  with assms have "tr3 = tr2 \<and> habit3 = habit2"
    unfolding edit_new_longest_streak_def by (simp split: if_splits)
  with False show ?thesis by (auto simp: rows_ok_def)
qed

lemma save_habit_rows:
  assumes h: "streak_le_longest habit3"
    and o: "\<forall>row \<in> set (habits tr3). name (snd row) \<noteq> name habit3 \<longrightarrow> streak_le_longest (snd row)"
    and s: "save_habit habit3 tr3 = Inr (tr4, out4)"
  shows "rows_ok tr4"
proof -
  from s have t: "tr4 = update_where_name (name habit3)
     (\<lambda>r. r\<lparr>streak := streak habit3, last_completed := last_completed habit3,
         streak_saves := streak_saves habit3, longest_streak := longest_streak habit3\<rparr>) tr3"
    by (simp add: save_habit_def update_habit_def split: if_splits)
  show ?thesis
    unfolding rows_ok_def t
  proof
    fix row'
    assume "row' \<in> set (habits (update_where_name (name habit3)
       (\<lambda>r. r\<lparr>streak := streak habit3, last_completed := last_completed habit3,
           streak_saves := streak_saves habit3, longest_streak := longest_streak habit3\<rparr>) tr3))"
    from in_update_where_name [OF this] show "streak_le_longest (snd row')"
    proof
      assume "row' \<in> set (habits tr3) \<and> name (snd row') \<noteq> name habit3"
      with o show ?thesis by simp
    next
      assume "\<exists>row \<in> set (habits tr3). name (snd row) = name habit3 \<and>
        row' = (fst row, snd row\<lparr>streak := streak habit3, last_completed := last_completed habit3,
           streak_saves := streak_saves habit3, longest_streak := longest_streak habit3\<rparr>)"
      then show ?thesis using h by (auto simp: streak_le_longest_def)
    qed
  qed
qed

lemma edit_habit_result:
  assumes g: "get_habit tr nm = Some habit"
    and e: "edit_habit nm new_name new_periodicity new_longest_streak tr =
      Inr (tr', Some h', out)"
  shows "streak h' = streak habit \<and>
    longest_streak h' =
      (if new_longest_streak \<noteq> None \<and> the new_longest_streak \<ge> 0
       then the new_longest_streak else longest_streak habit) \<and>
    (rows_ok tr \<and> streak_le_longest h' \<longrightarrow> rows_ok tr')"
proof -
  from e g obtain tr1 habit1 out1 where
    s1: "edit_new_name nm new_name tr habit = Inr (tr1, habit1, out1)"
    by (auto simp: edit_habit_def split: sum.splits)
  obtain tr2 habit2 out2 where
    s2: "edit_new_periodicity new_periodicity tr1 habit1 = (tr2, habit2, out2)"
    by (cases "edit_new_periodicity new_periodicity tr1 habit1")
  from e obtain tr3 habit3 out3 where
    s3: "edit_new_longest_streak new_longest_streak tr2 habit2 = Inr (tr3, habit3, out3)"
    unfolding edit_habit_def g option.case s1 sum.case prod.case s2 Let_def
    by (cases "edit_new_longest_streak new_longest_streak tr2 habit2") auto
  from e obtain tr4 out4 where
    s4: "save_habit habit3 tr3 = Inr (tr4, out4)"
    unfolding edit_habit_def g option.case s1 sum.case prod.case s2 Let_def s3
    by (cases "save_habit habit3 tr3") auto
  have r: "h' = habit3" "tr' = tr4"
    using e
    unfolding edit_habit_def g option.case s1 sum.case prod.case s2 Let_def s3 s4
    by simp_all
  have "rows_ok tr4"
    if "streak_le_longest habit3"
      "\<forall>row \<in> set (habits tr3). name (snd row) \<noteq> name habit3 \<longrightarrow> streak_le_longest (snd row)"
    using save_habit_rows [OF that s4] .
  then show ?thesis
    using edit_new_name_keeps [OF s1] edit_new_periodicity_keeps [OF s2]
      edit_new_longest_streak_keeps [OF s3] r
    by simp
qed

text \<open>
  C2 (as amended). For a habit whose longest streak is at least its streak, the
  completion, the streak save and the change of periodicity keep that; the lapse check
  keeps it when the longest streak is not negative; and an edit that finds the habit
  returns a habit that satisfies it exactly when no new longest streak is given, or the
  given one is negative (and so refused), or it is at least the streak. In that case the
  rows of the store keep it too.
\<close>

theorem streak_le_longest_preserved:
  assumes "streak_le_longest h"
  shows "streak_le_longest (fst (increment today h)) \<and>
    (0 \<le> longest_streak h \<longrightarrow> streak_le_longest (fst (streak_reset today h))) \<and>
    streak_le_longest (fst (streak_save today h)) \<and>
    streak_le_longest (fst (change_periodicity p h)) \<and>
    (\<forall>tr' h' out.
       get_habit tr nm = Some h \<and>
       edit_habit nm new_name new_periodicity new_longest_streak tr =
         Inr (tr', Some h', out) \<longrightarrow>
         (streak_le_longest h' \<longleftrightarrow>
            (case new_longest_streak of None \<Rightarrow> True | Some l \<Rightarrow> l < 0 \<or> streak h \<le> l)) \<and>
         (streak_le_longest h' \<and> rows_ok tr \<longrightarrow> rows_ok tr'))"
proof -
  have i: "streak_le_longest (fst (increment today h))"
    using assms by (simp add: increment_def Let_def streak_le_longest_def)
  have r: "0 \<le> longest_streak h \<longrightarrow> streak_le_longest (fst (streak_reset today h))"
    using assms by (simp add: streak_reset_def Let_def streak_le_longest_def split: option.split)
  have s: "streak_le_longest (fst (streak_save today h))"
    using assms by (simp add: streak_save_def Let_def streak_le_longest_def)
  have c: "streak_le_longest (fst (change_periodicity p h))"
    using assms by (simp add: change_periodicity_def streak_le_longest_def)
  have e: "(streak_le_longest h' \<longleftrightarrow>
            (case new_longest_streak of None \<Rightarrow> True | Some l \<Rightarrow> l < 0 \<or> streak h \<le> l)) \<and>
         (streak_le_longest h' \<and> rows_ok tr \<longrightarrow> rows_ok tr')"
    if "get_habit tr nm = Some h"
      "edit_habit nm new_name new_periodicity new_longest_streak tr = Inr (tr', Some h', out)"
    for tr' h' out
    using edit_habit_result [OF that] assms
    by (cases new_longest_streak) (auto simp: streak_le_longest_def)
  from i r s c e show ?thesis by blast
qed

theorem streak_le_longest_preserved_witness:
  "streak_le_longest (fst (increment (2025, 4, 15) walk)) \<and>
   streak_le_longest (fst (streak_reset (2025, 4, 15) walk)) \<and>
   streak_le_longest (fst (streak_save (2025, 4, 15) walk)) \<and>
   streak_le_longest (fst (change_periodicity ''weekly'' walk)) \<and>
   edit_habit ''Walk'' (Some ''Hike'') (Some ''weekly'') (Some 7) two_habits =
     Inr (\<lparr>habits = [(1, walk\<lparr>name := ''Hike'', periodicity := ''weekly'', longest_streak := 7\<rparr>),
                 (2, stretch)], completions = []\<rparr>,
      Some (walk\<lparr>name := ''Hike'', periodicity := ''weekly'', longest_streak := 7\<rparr>),
      [NameUpdated ''Hike'', PeriodicityUpdated ''Hike'' ''weekly'',
       LongestStreakUpdated ''Hike'' 7, HabitSaved ''Hike'']) \<and>
   streak_le_longest (walk\<lparr>name := ''Hike'', periodicity := ''weekly'', longest_streak := 7\<rparr>) \<and>
   rows_ok \<lparr>habits = [(1, walk\<lparr>name := ''Hike'', periodicity := ''weekly'', longest_streak := 7\<rparr>),
                 (2, stretch)], completions = []\<rparr>"
proof -
  have w: "streak_le_longest walk"
    by (simp add: streak_le_longest_def walk_def)
  have g: "get_habit two_habits ''Walk'' = Some walk"
    by (simp add: get_habit_def two_habits_def walk_def)
  have ok: "rows_ok two_habits"
    by (simp add: rows_ok_def two_habits_def streak_le_longest_def walk_def stretch_def)
  have l: "0 \<le> longest_streak walk"
    by (simp add: walk_def)
  have e: "edit_habit ''Walk'' (Some ''Hike'') (Some ''weekly'') (Some 7) two_habits =
     Inr (\<lparr>habits = [(1, walk\<lparr>name := ''Hike'', periodicity := ''weekly'', longest_streak := 7\<rparr>),
                 (2, stretch)], completions = []\<rparr>,
      Some (walk\<lparr>name := ''Hike'', periodicity := ''weekly'', longest_streak := 7\<rparr>),
      [NameUpdated ''Hike'', PeriodicityUpdated ''Hike'' ''weekly'',
       LongestStreakUpdated ''Hike'' 7, HabitSaved ''Hike''])"
    unfolding edit_habit_def g option.case
    by (simp add: edit_new_name_def rename_rows_def update_where_name_def
        edit_new_periodicity_def edit_new_longest_streak_def save_habit_def update_habit_def
        sqlite_int_def two_habits_def walk_def stretch_def)
  have s: "streak walk \<le> 7"
    by (simp add: walk_def)
  from streak_le_longest_preserved
    [OF w, of "(2025, 4, 15)" "''weekly''" two_habits "''Walk''" "Some ''Hike''"
      "Some ''weekly''" "Some 7"]
    g e ok l s
  show ?thesis by simp
qed

theorem edit_habit_breaks_invariant:
  "streak_le_longest walk \<and>
   get_habit one_habit ''Walk'' = Some walk \<and>
   edit_habit ''Walk'' None None (Some 0) one_habit =
     Inr (\<lparr>habits = [(1, walk\<lparr>longest_streak := 0\<rparr>)], completions = []\<rparr>,
      Some (walk\<lparr>longest_streak := 0\<rparr>),
      [LongestStreakUpdated ''Walk'' 0, HabitSaved ''Walk'']) \<and>
   \<not> streak_le_longest (walk\<lparr>longest_streak := 0\<rparr>)"
  by (simp add: edit_habit_def get_habit_def edit_new_name_def
      edit_new_periodicity_def edit_new_longest_streak_def save_habit_def update_habit_def
      sqlite_int_def update_where_name_def one_habit_def walk_def streak_le_longest_def)

section \<open>Evaluation on the example store\<close>

lemmas date_eval =
  toordinal_def ymd2ord_def days_before_year_def days_before_month_def
  DAYS_BEFORE_MONTH_def DAYS_IN_MONTH_def is_leap_def year_def month_def day_def
  fromordinal_def ord2ymd_def DI400Y_def DI100Y_def DI4Y_def MAXORDINAL_def
  date_add_def date_sub_def timedelta_def weekday_def Let_def

lemma walk_log_habit: "get_habit walk_log ''Walk'' = Some walk"
  by (simp add: get_habit_def walk_log_def walk_def stretch_def)

lemma walk_log_history:
  "get_completion_history walk_log ''Walk'' =
     [(2023, 12, 31), (2024, 1, 1), (2024, 1, 15), (2024, 1, 17)]"
  by (simp add: get_completion_history_def get_habit_id_def walk_log_def walk_def stretch_def)

section \<open>The daily trend\<close>

lemma dict_set_new:
  assumes "k \<notin> fst ` set d"
  shows "dict_set d k v = d @ [(k, v)]"
  using assms by (simp add: dict_set_def)

lemma daily_loop_result:
  assumes v: "valid_date start"
    and r: "\<forall>n \<in> set ns. 0 \<le> n \<and> toordinal start + n \<le> MAXORDINAL"
    and d: "distinct ns"
    and a: "\<forall>k \<in> fst ` set acc. \<forall>n \<in> set ns. k \<noteq> fromordinal (toordinal start + n)"
  shows "daily_loop history start ns acc =
    Inr (acc @ map (\<lambda>n. (fromordinal (toordinal start + n),
                        if fromordinal (toordinal start + n) \<in> set history then 1 else 0)) ns)"
  using r d a
proof (induction ns arbitrary: acc)
  case Nil
  show ?case by simp
next
  case (Cons n ns)
  let ?k = "fromordinal (toordinal start + n)"
  let ?v = "if ?k \<in> set history then 1 else 0 :: int"
  from Cons.prems(1) have n: "0 \<le> n" "toordinal start + n \<le> MAXORDINAL" by simp_all
  have lo: "1 \<le> toordinal start + n"
    using toordinal_bounds(1) [OF v] n by simp
  have td: "timedelta n = Inr n"
    using n toordinal_bounds(1) [OF v] by (simp add: timedelta_def MAXORDINAL_def)
  have da: "date_add start n = Inr ?k"
    using lo n by (simp add: date_add_def)
  have new: "?k \<notin> fst ` set acc"
    using Cons.prems(3) by auto
  have step: "daily_loop history start (n # ns) acc =
      daily_loop history start ns (acc @ [(?k, ?v)])"
    by (simp add: td da dict_set_new [OF new])
  have fresh: "\<forall>k \<in> fst ` set (acc @ [(?k, ?v)]). \<forall>m \<in> set ns.
      k \<noteq> fromordinal (toordinal start + m)"
  proof (intro ballI)
    fix k m assume k: "k \<in> fst ` set (acc @ [(?k, ?v)])" and m: "m \<in> set ns"
    show "k \<noteq> fromordinal (toordinal start + m)"
    proof (cases "k = ?k")
      case True
      from Cons.prems(1) m have mb: "0 \<le> m" "toordinal start + m \<le> MAXORDINAL" by simp_all
      have ml: "1 \<le> toordinal start + m"
        using toordinal_bounds(1) [OF v] mb by simp
      from Cons.prems(2) m have "m \<noteq> n" by auto
      then have "toordinal (fromordinal (toordinal start + n)) \<noteq>
          toordinal (fromordinal (toordinal start + m))"
        using toordinal_fromordinal(2) [OF lo n(2)] toordinal_fromordinal(2) [OF ml mb(2)]
        by simp
      then show ?thesis using True by auto
    next
      case False
      with k have "k \<in> fst ` set acc" by auto
      with Cons.prems(3) m show ?thesis by auto
    qed
  qed
  have "daily_loop history start ns (acc @ [(?k, ?v)]) =
      Inr ((acc @ [(?k, ?v)]) @ map (\<lambda>n. (fromordinal (toordinal start + n),
                        if fromordinal (toordinal start + n) \<in> set history then 1 else 0)) ns)"
    using Cons.prems(1,2) fresh by (intro Cons.IH) simp_all
  then show ?case unfolding step by simp
qed

text \<open>
  C5 (as amended). For an existing habit, a valid reference date and a window of
  num_days days with 1 \<le> num_days that does not start before the first date there is
  (num_days is at most the ordinal of the reference date), the daily trend returns
  exactly num_days entries; entry i is keyed by the valid date whose ordinal is that of
  the reference date minus (num_days - 1 - i), so the keys are the consecutive days
  ending at the reference date, oldest first; and each value is 1 if the key is in the
  history and 0 otherwise.
\<close>

theorem calculate_daily_trend_window:
  assumes v: "valid_date today"
    and n1: "1 \<le> num_days"
    and n2: "num_days \<le> toordinal today"
    and g: "get_habit tr habit_name = Some habit"
  shows "\<exists>trend.
    calculate_daily_trend tr today habit_name num_days = Inr trend \<and>
    length trend = nat num_days \<and>
    (\<forall>i < nat num_days.
       valid_date (fst (trend ! i)) \<and>
       toordinal (fst (trend ! i)) = toordinal today - (num_days - 1) + int i \<and>
       snd (trend ! i) =
         (if fst (trend ! i) \<in> set (get_completion_history tr habit_name) then 1 else 0)) \<and>
    fst (last trend) = today \<and>
    (\<forall>i j. i < j \<and> j < nat num_days \<longrightarrow> fst (trend ! i) < fst (trend ! j))"
proof -
  define history where "history = get_completion_history tr habit_name"
  define s where "s = toordinal today - (num_days - 1)"
  define start where "start = fromordinal s"
  define trend where "trend = map (\<lambda>n. (fromordinal (toordinal start + n),
      if fromordinal (toordinal start + n) \<in> set history then 1 else 0 :: int))
      (map int [0..<nat num_days])"
  have tb: "1 \<le> toordinal today" "toordinal today \<le> MAXORDINAL"
    using toordinal_bounds [OF v] by simp_all
  have sb: "1 \<le> s" "s \<le> MAXORDINAL"
    using n1 n2 tb by (simp_all add: s_def)
  have sv: "valid_date start" and st: "toordinal start = s"
    using toordinal_fromordinal [OF sb] by (simp_all add: start_def)
  have td: "timedelta (num_days - 1) = Inr (num_days - 1)"
    using n1 n2 tb by (simp add: timedelta_def MAXORDINAL_def)
  have ds: "date_sub today (num_days - 1) = Inr start"
  proof -
    have e: "toordinal today + - (num_days - 1) = s" by (simp add: s_def)
    show ?thesis
      unfolding date_sub_def date_add_def Let_def e start_def using sb by simp
  qed
  have loop: "daily_loop history start (map int [0..<nat num_days]) [] = Inr ([] @ trend)"
    unfolding trend_def
  proof (rule daily_loop_result [OF sv])
    show "\<forall>n \<in> set (map int [0..<nat num_days]). 0 \<le> n \<and> toordinal start + n \<le> MAXORDINAL"
      using tb n1 by (auto simp: st s_def)
    show "distinct (map int [0..<nat num_days])"
      by (simp add: distinct_map inj_on_def)
    show "\<forall>k \<in> fst ` set []. \<forall>n \<in> set (map int [0..<nat num_days]).
        k \<noteq> fromordinal (toordinal start + n)"
      by simp
  qed
  have res: "calculate_daily_trend tr today habit_name num_days = Inr trend"
    unfolding calculate_daily_trend_def g option.case Let_def td sum.case ds
      history_def [symmetric] loop
    by simp
  have len: "length trend = nat num_days"
    by (simp add: trend_def)
  have key: "fst (trend ! i) = fromordinal (s + int i)" 
    and val: "snd (trend ! i) = (if fst (trend ! i) \<in> set history then 1 else 0)"
    if "i < nat num_days" for i
    using that by (simp_all add: trend_def st)
  have kb: "1 \<le> s + int i" "s + int i \<le> MAXORDINAL" if "i < nat num_days" for i
    using that sb tb by (simp_all add: s_def)
  have kv: "valid_date (fst (trend ! i))" and ko: "toordinal (fst (trend ! i)) = s + int i"
    if "i < nat num_days" for i
    using toordinal_fromordinal [OF kb [OF that]] key [OF that] by simp_all
  have lst: "fst (last trend) = today"
  proof -
    have ne: "trend \<noteq> []" using len n1 by auto
    have "last trend = trend ! (nat num_days - 1)"
      using last_conv_nth [OF ne] len by simp
    moreover have "nat num_days - 1 < nat num_days" using n1 by simp
    moreover have "s + int (nat num_days - 1) = toordinal today"
      using n1 by (simp add: s_def)
    ultimately show ?thesis
      using key [of "nat num_days - 1"] fromordinal_toordinal [OF v] by simp
  qed
  have asc: "fst (trend ! i) < fst (trend ! j)" if "i < j" "j < nat num_days" for i j
  proof -
    from that have i: "i < nat num_days" by simp
    show ?thesis
      using date_less_iff [OF kv [OF i] kv [OF that(2)]] ko [OF i] ko [OF that(2)] that(1)
      by simp
  qed
  show ?thesis
    using res len kv ko val lst asc
    by (auto simp: history_def s_def)
qed

theorem calculate_daily_trend_window_witness:
  "valid_date (2024, 1, 20) \<and> (1 :: int) \<le> 4 \<and> 4 \<le> toordinal (2024, 1, 20) \<and>
   get_habit walk_log ''Walk'' = Some walk \<and>
   (\<exists>trend. calculate_daily_trend walk_log (2024, 1, 20) ''Walk'' 4 = Inr trend \<and>
      length trend = 4 \<and> fst (last trend) = (2024, 1, 20) \<and>
      toordinal (fst (trend ! 0)) = toordinal (2024, 1, 20) - 3 \<and>
      fst (trend ! 0) < fst (trend ! 1))"
proof -
  have v: "valid_date (2024, 1, 20)"
    by (simp add: valid_date_def MINYEAR_def MAXYEAR_def days_in_month_def date_eval)
  have a: "(1 :: int) \<le> 4" by simp
  have b: "4 \<le> toordinal (2024, 1, 20)"
    by (simp add: date_eval)
  from calculate_daily_trend_window [OF v a b walk_log_habit]
  obtain trend where t: "calculate_daily_trend walk_log (2024, 1, 20) ''Walk'' 4 = Inr trend"
    "length trend = nat 4" "fst (last trend) = (2024, 1, 20)"
    and i: "\<forall>i < nat 4. valid_date (fst (trend ! i)) \<and>
       toordinal (fst (trend ! i)) = toordinal (2024, 1, 20) - (4 - 1) + int i \<and>
       snd (trend ! i) =
         (if fst (trend ! i) \<in> set (get_completion_history walk_log ''Walk'') then 1 else 0)"
    and o: "\<forall>i j. i < j \<and> j < nat 4 \<longrightarrow> fst (trend ! i) < fst (trend ! j)"
    by blast
  from i have "toordinal (fst (trend ! 0)) = toordinal (2024, 1, 20) - 3" by simp
  moreover from o have "fst (trend ! 0) < fst (trend ! 1)" by simp
  ultimately show ?thesis using v b walk_log_habit t by auto
qed

theorem calculate_daily_trend_overflow:
  "get_habit walk_log ''Walk'' = Some walk \<and>
   calculate_daily_trend walk_log (2024, 1, 20) ''Walk'' 800000 = Inl OverflowError"
proof -
  have "calculate_daily_trend walk_log (2024, 1, 20) ''Walk'' 800000 = Inl OverflowError"
    unfolding calculate_daily_trend_def walk_log_habit walk_log_history option.case
    by (simp add: date_eval)
  then show ?thesis by (simp add: walk_log_habit)
qed

section \<open>The monthly trend\<close>

lemma month_start_fields:
  "year (month_start_of_index i) = i div 12"
  "month (month_start_of_index i) = i mod 12 + 1"
  "day (month_start_of_index i) = 1"
  by (simp_all add: month_start_of_index_def year_def month_def day_def)

lemma div12_split:
  fixes i :: int
  obtains q r where "i = 12 * q + r" "0 \<le> r" "r < 12" "i div 12 = q" "i mod 12 = r"
proof
  show "i = 12 * (i div 12) + i mod 12" by simp
  show "0 \<le> i mod 12" "i mod 12 < 12" by simp_all
qed simp_all

lemma month_start_less:
  "month_start_of_index i < month_start_of_index j \<longleftrightarrow> i < j"
proof -
  obtain q r where i: "i = 12 * q + r" "0 \<le> r" "r < 12" "i div 12 = q" "i mod 12 = r"
    by (rule div12_split)
  obtain q' r' where j: "j = 12 * q' + r'" "0 \<le> r'" "r' < 12" "j div 12 = q'" "j mod 12 = r'"
    by (rule div12_split)
  have "month_start_of_index i < month_start_of_index j \<longleftrightarrow> q < q' \<or> (q = q' \<and> r < r')"
    unfolding month_start_of_index_def i(4,5) j(4,5)
    by (auto simp: less_prod_def less_eq_prod_def)
  also have "\<dots> \<longleftrightarrow> i < j"
    unfolding i(1) j(1) using i(2,3) j(2,3) by auto
  finally show ?thesis .
qed

lemma month_start_inj: "month_start_of_index i = month_start_of_index j \<longleftrightarrow> i = j"
  using month_start_less [of i j] month_start_less [of j i]
  by (metis less_irrefl linorder_neqE)

lemma month_start_valid:
  assumes "12 \<le> i" "i \<le> 12 * 9999 + 11"
  shows "valid_date (month_start_of_index i)"
proof -
  obtain q r where i: "i = 12 * q + r" "0 \<le> r" "r < 12" "i div 12 = q" "i mod 12 = r"
    by (rule div12_split)
  have q: "1 \<le> q" "q \<le> 9999" using assms i(1,2,3) by linarith+
  have "28 \<le> days_in_month q (r + 1)"
    using days_in_month_bounds [of "r + 1" q] i(2,3) by simp
  then show ?thesis
    using q i(2,3)
    by (simp add: valid_date_def month_start_fields i(4,5) MINYEAR_def MAXYEAR_def)
qed

lemma month_start_of_month_index:
  assumes "1 \<le> month d" "month d \<le> 12"
  shows "month_start_of_index (month_index d) = (year d, month d, 1)"
proof -
  have e: "month_index d = 12 * year d + (month d - 1)" by (simp add: month_index_def)
  have "month_index d div 12 = year d"
    by (rule int_div_pos_eq [OF e]) (use assms in simp_all)
  moreover have "month_index d mod 12 = month d - 1"
    by (rule int_mod_pos_eq [OF e]) (use assms in simp_all)
  ultimately show ?thesis by (simp add: month_start_of_index_def)
qed

lemma mk_date_first:
  assumes "1 \<le> y" "y \<le> 9999" "1 \<le> m" "m \<le> 12"
  shows "mk_date y m 1 = Inr (y, m, 1)"
  using assms days_in_month_bounds [of m y]
  by (simp add: mk_date_def valid_date_def year_def month_def day_def MINYEAR_def MAXYEAR_def)

lemma min_days_in_month:
  assumes "1 \<le> m" "m \<le> 12"
  shows "min (days_in_month y m) 1 = 1"
  using days_in_month_bounds [OF assms, of y] by simp

lemma relativedelta_add_first:
  assumes "1 \<le> y'" "y' \<le> 9999" "1 \<le> m'" "m' \<le> 12"
    and "dm \<noteq> 0 \<and> month dt + dm > 12 \<Longrightarrow> y' = year dt + dy + 1 \<and> m' = month dt + dm - 12"
    and "dm \<noteq> 0 \<and> month dt + dm < 1 \<Longrightarrow> y' = year dt + dy - 1 \<and> m' = month dt + dm + 12"
    and "\<not> (dm \<noteq> 0 \<and> month dt + dm > 12) \<Longrightarrow> \<not> (dm \<noteq> 0 \<and> month dt + dm < 1) \<Longrightarrow>
      y' = year dt + dy \<and> m' = month dt + dm"
    and "day dt = 1"
  shows "relativedelta_add dt (dy, dm) = Inr (y', m', 1)"
proof -
  have "relativedelta_add dt (dy, dm) = mk_date y' m' (min (days_in_month y' m') 1)"
    using assms(5-8)
    by (cases "dm \<noteq> 0 \<and> month dt + dm > 12"; cases "dm \<noteq> 0 \<and> month dt + dm < 1")
       (auto simp: relativedelta_add_def Let_def)
  then show ?thesis
    by (simp add: min_days_in_month [OF assms(3,4)] mk_date_first [OF assms(1-4)])
qed

lemma relativedelta_add_month:
  assumes "11 \<le> j" "j \<le> 12 * 9999 + 10"
  shows "relativedelta_add (month_start_of_index j) (relativedelta_months 1) =
    Inr (month_start_of_index (j + 1))"
proof -
  obtain q r where j: "j = 12 * q + r" "0 \<le> r" "r < 12" "j div 12 = q" "j mod 12 = r"
    by (rule div12_split)
  have rd: "relativedelta_months 1 = (0, 1)" by (simp add: relativedelta_months_def)
  show ?thesis
  proof (cases "r = 11")
    case True
    have e: "j + 1 = 12 * (q + 1) + 0" using j(1) True by simp
    have d: "(j + 1) div 12 = q + 1" by (rule int_div_pos_eq [OF e]) simp_all
    have m: "(j + 1) mod 12 = 0" by (rule int_mod_pos_eq [OF e]) simp_all
    have q: "1 \<le> q + 1" "q + 1 \<le> 9999" using assms j(1) True by linarith+
    have "relativedelta_add (month_start_of_index j) (0, 1) = Inr (q + 1, 1, 1)"
      by (rule relativedelta_add_first [OF q])
         (simp_all add: month_start_fields j(4,5) True)
    then show ?thesis
      by (simp add: rd month_start_of_index_def [of "j + 1"] d m)
  next
    case False
    with j have r: "r \<le> 10" by simp
    have e: "j + 1 = 12 * q + (r + 1)" using j(1) by simp
    have d: "(j + 1) div 12 = q" by (rule int_div_pos_eq [OF e]) (use j r in simp_all)
    have m: "(j + 1) mod 12 = r + 1" by (rule int_mod_pos_eq [OF e]) (use j r in simp_all)
    have q: "1 \<le> q" "q \<le> 9999" using assms j(1,2) r by linarith+
    have "relativedelta_add (month_start_of_index j) (0, 1) = Inr (q, r + 1 + 1, 1)"
      by (rule relativedelta_add_first [OF q])
         (use r j(2) in \<open>simp_all add: month_start_fields j(4,5)\<close>)
    then show ?thesis
      by (simp add: rd month_start_of_index_def [of "j + 1"] d m)
  qed
qed

lemma relativedelta_months_nonneg:
  assumes "0 \<le> n"
  shows "relativedelta_months n = (n div 12, n mod 12)"
proof (cases "n > 11")
  case True
  then show ?thesis using assms by (simp add: relativedelta_months_def)
next
  case False
  with assms have "n div 12 = 0" "n mod 12 = n" by simp_all
  with False assms show ?thesis by (simp add: relativedelta_months_def)
qed

lemma relativedelta_sub_months:
  assumes n: "0 \<le> n" and lo: "12 \<le> i - n" and hi: "i \<le> 12 * 9999 + 11"
  shows "relativedelta_sub (month_start_of_index i) (relativedelta_months n) =
    Inr (month_start_of_index (i - n))"
proof -
  obtain q r where i: "i = 12 * q + r" "0 \<le> r" "r < 12" "i div 12 = q" "i mod 12 = r"
    by (rule div12_split)
  obtain a b where k: "n = 12 * a + b" "0 \<le> b" "b < 12" "n div 12 = a" "n mod 12 = b"
    by (rule div12_split)
  have a0: "0 \<le> a" using n k(1,3) by linarith
  have hi': "i \<le> 119999" using hi by simp
  have rs: "relativedelta_sub (month_start_of_index i) (relativedelta_months n) =
      relativedelta_add (month_start_of_index i) (- a, - b)"
    by (simp add: relativedelta_sub_def relativedelta_neg_def relativedelta_months_nonneg [OF n]
        k(4,5))
  show ?thesis
  proof (cases "b \<le> r")
    case True
    have e: "i - n = 12 * (q - a) + (r - b)" using i(1) k(1) by simp
    have d: "(i - n) div 12 = q - a"
      by (rule int_div_pos_eq [OF e]) (use True i k in simp_all)
    have m: "(i - n) mod 12 = r - b"
      by (rule int_mod_pos_eq [OF e]) (use True i k in simp_all)
    have y: "1 \<le> q - a" "q - a \<le> 9999"
      using lo hi' i(1) k(1) True i(2,3) k(2,3) a0 by linarith+
    have mm: "1 \<le> r - b + 1" "r - b + 1 \<le> 12" using True i(3) k(2) by simp_all
    have "relativedelta_add (month_start_of_index i) (- a, - b) = Inr (q - a, r - b + 1, 1)"
      by (rule relativedelta_add_first [OF y mm])
         (use True i(2,3) k(2,3) in \<open>simp_all add: month_start_fields i(4,5)\<close>)
    then show ?thesis
      by (simp add: rs month_start_of_index_def [of "i - n"] d m)
  next
    case False
    have e: "i - n = 12 * (q - a - 1) + (r - b + 12)" using i(1) k(1) by simp
    have d: "(i - n) div 12 = q - a - 1"
      by (rule int_div_pos_eq [OF e]) (use False i k in simp_all)
    have m: "(i - n) mod 12 = r - b + 12"
      by (rule int_mod_pos_eq [OF e]) (use False i k in simp_all)
    have y: "1 \<le> q - a - 1" "q - a - 1 \<le> 9999"
      using lo hi' i(1) k(1) False i(2,3) k(2,3) a0 by linarith+
    have mm: "1 \<le> r - b + 12 + 1" "r - b + 12 + 1 \<le> 12" using False i(2) k(3) by simp_all
    have "relativedelta_add (month_start_of_index i) (- a, - b) =
        Inr (q - a - 1, r - b + 12 + 1, 1)"
      by (rule relativedelta_add_first [OF y mm])
         (use False i(2,3) k(2,3) in \<open>simp_all add: month_start_fields i(4,5)\<close>)
    then show ?thesis
      by (simp add: rs month_start_of_index_def [of "i - n"] d m)
  qed
qed

lemma dict_set_keys:
  assumes "k \<in> fst ` set d"
  shows "map fst (dict_set d k v) = map fst d"
  using assms by (auto simp: dict_set_def)

lemma map_of_dict_set:
  assumes "k \<in> fst ` set d"
  shows "map_of (dict_set d k v) = (map_of d)(k \<mapsto> v)"
proof -
  have "map_of (map (\<lambda>kv. if fst kv = k then (k, v) else kv) d) k' =
      (if k' = k then (if map_of d k = None then None else Some v) else map_of d k')" for k'
    by (induction d) auto
  moreover have "map_of d k \<noteq> None"
    using assms by (simp add: map_of_eq_None_iff)
  ultimately show ?thesis using assms by (auto simp: dict_set_def fun_eq_iff)
qed

lemma dict_get_default_dict_set:
  assumes "k \<in> fst ` set d"
  shows "dict_get_default (dict_set d k v) k' = (if k' = k then v else dict_get_default d k')"
  by (simp add: dict_get_default_def map_of_dict_set [OF assms])

lemma dict_get_default_entry:
  assumes "distinct (map fst d)" "(k, v) \<in> set d"
  shows "dict_get_default d k = v"
  using assms by (simp add: dict_get_default_def)

lemma dict_of_items_fold:
  assumes "distinct (map fst xs)" "fst ` set acc \<inter> fst ` set xs = {}"
  shows "foldl (\<lambda>d kv. dict_set d (fst kv) (snd kv)) acc xs = acc @ xs"
  using assms
proof (induction xs arbitrary: acc)
  case Nil
  show ?case by simp
next
  case (Cons x xs)
  have n: "fst x \<notin> fst ` set acc" using Cons.prems(2) by auto
  have "foldl (\<lambda>d kv. dict_set d (fst kv) (snd kv)) (acc @ [x]) xs = (acc @ [x]) @ xs"
    using Cons.prems by (intro Cons.IH) auto
  then show ?case by (simp add: dict_set_new [OF n])
qed

lemma dict_of_items_distinct:
  assumes "distinct (map fst xs)"
  shows "dict_of_items xs = xs"
  using dict_of_items_fold [OF assms, of "[]"] by (simp add: dict_of_items_def)

lemma sorted_by_keys:
  fixes xs :: "('a::linorder \<times> 'b::linorder) list"
  assumes "sorted_wrt (<) (map fst xs)"
  shows "sorted xs"
  using assms
  by (induction xs) (auto simp: less_eq_prod_def)

lemma month_starts_loop_result:
  assumes "11 \<le> I" "I \<le> 12 * 9999 + 10" "j \<le> I + 1"
    and "11 \<le> j"
    and "\<forall>k \<in> fst ` set T. \<forall>i. j \<le> i \<and> i \<le> I \<longrightarrow> k \<noteq> month_start_of_index i"
  shows "month_starts_loop (month_start_of_index I) (month_start_of_index j) E T =
    Inr (E \<union> month_start_of_index ` {j..I},
         T @ map (\<lambda>i. (month_start_of_index i, 0)) [j..I])"
  using assms(3,4,5)
proof (induction "nat (I + 1 - j)" arbitrary: j E T)
  case 0
  then have j: "j = I + 1" by simp
  have b: "relativedelta_add (month_start_of_index I) (relativedelta_months 1) =
      Inr (month_start_of_index (I + 1))"
    using assms(1,2) by (rule relativedelta_add_month)
  show ?case
    by (subst month_starts_loop.simps) (simp add: b j)
next
  case (Suc n)
  then have j: "j \<le> I" by simp
  have b: "relativedelta_add (month_start_of_index I) (relativedelta_months 1) =
      Inr (month_start_of_index (I + 1))"
    using assms(1,2) by (rule relativedelta_add_month)
  have nx: "relativedelta_add (month_start_of_index j) (relativedelta_months 1) =
      Inr (month_start_of_index (j + 1))"
    using Suc.prems(2) j assms(2) by (intro relativedelta_add_month) simp_all
  have lt: "month_start_of_index j < month_start_of_index (I + 1)"
    using j by (simp add: month_start_less)
  have new: "month_start_of_index j \<notin> fst ` set T"
  proof
    assume "month_start_of_index j \<in> fst ` set T"
    with Suc.prems(3) have "\<forall>i. j \<le> i \<and> i \<le> I \<longrightarrow>
        month_start_of_index j \<noteq> month_start_of_index i"
      by blast
    with j show False by blast
  qed
  have step: "month_starts_loop (month_start_of_index I) (month_start_of_index j) E T =
      month_starts_loop (month_start_of_index I) (month_start_of_index (j + 1))
        (insert (month_start_of_index j) E) (T @ [(month_start_of_index j, 0)])"
    by (subst month_starts_loop.simps) (simp add: b nx lt dict_set_new [OF new])
  have fresh: "\<forall>k \<in> fst ` set (T @ [(month_start_of_index j, 0)]).
      \<forall>i. j + 1 \<le> i \<and> i \<le> I \<longrightarrow> k \<noteq> month_start_of_index i"
    using Suc.prems(3) by (auto simp: month_start_inj)
  have ih: "month_starts_loop (month_start_of_index I) (month_start_of_index (j + 1))
        (insert (month_start_of_index j) E) (T @ [(month_start_of_index j, 0)]) =
      Inr (insert (month_start_of_index j) E \<union> month_start_of_index ` {j + 1..I},
           (T @ [(month_start_of_index j, 0)]) @
           map (\<lambda>i. (month_start_of_index i, 0)) [j + 1..I])"
    using Suc.hyps(2) j Suc.prems(2) fresh by (intro Suc.hyps(1)) simp_all
  have u: "[j..I] = j # [j + 1..I]"
    using j by (simp add: upto_rec1)
  have s: "{j..I} = insert j {j + 1..I}"
    using j by auto
  show ?case
    unfolding step ih u s by simp
qed

lemma monthly_count_loop_result:
  assumes "\<forall>c \<in> set hist. valid_date c" "E = fst ` set T" "distinct (map fst T)"
  shows "\<exists>T'. monthly_count_loop s e E hist T = Inr T' \<and> map fst T' = map fst T \<and>
    (\<forall>k \<in> E. dict_get_default T' k = dict_get_default T k +
       int (length (filter (\<lambda>c. s \<le> c \<and> c \<le> e \<and> (year c, month c, 1) = k) hist)))"
  using assms
proof (induction hist arbitrary: T)
  case Nil
  show ?case by simp
next
  case (Cons c hist)
  let ?ms = "(year c, month c, 1)"
  from Cons.prems(1) have vc: "valid_date c" and vh: "\<forall>c \<in> set hist. valid_date c"
    by simp_all
  have mk: "mk_date (year c) (month c) 1 = Inr ?ms"
    using vc by (intro mk_date_first) (simp_all add: valid_date_def MINYEAR_def MAXYEAR_def)
  show ?case
  proof (cases "s \<le> c \<and> c \<le> e \<and> ?ms \<in> E")
    case True
    let ?T1 = "dict_set T ?ms (dict_get_default T ?ms + 1)"
    have in_T: "?ms \<in> fst ` set T" using True Cons.prems(2) by simp
    have k1: "map fst ?T1 = map fst T" by (rule dict_set_keys [OF in_T])
    have e1: "E = fst ` set ?T1"
      using Cons.prems(2) k1 by (metis list.set_map)
    have d1: "distinct (map fst ?T1)" using Cons.prems(3) k1 by simp
    from Cons.IH [OF vh e1 d1] obtain T' where
      r: "monthly_count_loop s e E hist ?T1 = Inr T'" "map fst T' = map fst ?T1"
      and v: "\<forall>k \<in> E. dict_get_default T' k = dict_get_default ?T1 k +
        int (length (filter (\<lambda>c. s \<le> c \<and> c \<le> e \<and> (year c, month c, 1) = k) hist))"
      by blast
    have "monthly_count_loop s e E (c # hist) T = Inr T'"
      using True r(1) by (simp add: mk)
    moreover have "map fst T' = map fst T" using r(2) k1 by simp
    moreover have "\<forall>k \<in> E. dict_get_default T' k = dict_get_default T k +
        int (length (filter (\<lambda>c. s \<le> c \<and> c \<le> e \<and> (year c, month c, 1) = k) (c # hist)))"
      using v True by (auto simp: dict_get_default_dict_set [OF in_T])
    ultimately show ?thesis by blast
  next
    case False
    from Cons.IH [OF vh Cons.prems(2,3)] obtain T' where
      r: "monthly_count_loop s e E hist T = Inr T'" "map fst T' = map fst T"
      and v: "\<forall>k \<in> E. dict_get_default T' k = dict_get_default T k +
        int (length (filter (\<lambda>c. s \<le> c \<and> c \<le> e \<and> (year c, month c, 1) = k) hist))"
      by blast
    have "monthly_count_loop s e E (c # hist) T = Inr T'"
      using False r(1) by (auto simp: mk)
    moreover have "\<forall>k \<in> E. dict_get_default T' k = dict_get_default T k +
        int (length (filter (\<lambda>c. s \<le> c \<and> c \<le> e \<and> (year c, month c, 1) = k) (c # hist)))"
      using v False by auto
    ultimately show ?thesis using r(2) by blast
  qed
qed

lemma month_starts_ascending:
  "sorted_wrt (<) (map month_start_of_index [a..b])"
proof -
  have "sorted_wrt (<) [a..b]"
    by (simp add: strict_sorted_iff)
  then have "sorted_wrt (\<lambda>i j. month_start_of_index i < month_start_of_index j) [a..b]"
    by (simp add: month_start_less)
  then show ?thesis by (simp add: sorted_wrt_map)
qed

text \<open>
  C6 (as amended). For an existing habit whose history holds valid dates, a valid
  reference date before December 9999 and num_months \<ge> 0 such that the window starts in
  year 1 or later, the monthly trend returns exactly num_months + 1 entries, keyed by the
  first days of the consecutive months from num_months months before the reference month
  up to the reference month, in ascending order; the value of a month is the number of
  completions of the history that lie between the first day of the window and the
  reference date and fall in that month. So a month without such a completion is
  present with 0, and a completion outside these bounds is not counted although its
  month is a key.
\<close>

theorem calculate_monthly_trend_dense:
  assumes v: "valid_date today"
    and n: "0 \<le> num_months"
    and lo: "12 \<le> month_index today - num_months"
    and hi: "month_index today \<le> 12 * 9999 + 10"
    and g: "get_habit tr habit_name = Some habit"
    and h: "\<forall>c \<in> set (get_completion_history tr habit_name). valid_date c"
  shows "\<exists>trend.
    calculate_monthly_trend tr today habit_name num_months = Inr trend \<and>
    length trend = nat num_months + 1 \<and>
    map fst trend =
      map month_start_of_index [month_index today - num_months..month_index today] \<and>
    sorted_wrt (<) (map fst trend) \<and>
    (\<forall>kv \<in> set trend.
       snd kv = int (length (filter
         (\<lambda>c. month_start_of_index (month_index today - num_months) \<le> c \<and> c \<le> today \<and>
              (year c, month c, 1) = fst kv)
         (get_completion_history tr habit_name))))"
proof -
  define history where "history = get_completion_history tr habit_name"
  define I where "I = month_index today"
  define first where "first = month_start_of_index I"
  define start where "start = month_start_of_index (I - num_months)"
  define T0 where "T0 = map (\<lambda>i. (month_start_of_index i, 0 :: int)) [I - num_months..I]"
  define E where "E = month_start_of_index ` {I - num_months..I}"
  from v have ym: "1 \<le> year today" "year today \<le> 9999" "1 \<le> month today" "month today \<le> 12"
    by (simp_all add: valid_date_def MINYEAR_def MAXYEAR_def)
  have f: "mk_date (year today) (month today) 1 = Inr first"
    using mk_date_first [OF ym] month_start_of_month_index [OF ym(3,4)]
    by (simp add: first_def I_def)
  have s: "relativedelta_sub first (relativedelta_months num_months) = Inr start"
    unfolding first_def start_def
    using n lo hi by (intro relativedelta_sub_months) (simp_all add: I_def)
  have l: "month_starts_loop first start {} [] = Inr (E, T0)"
  proof -
    have "month_starts_loop (month_start_of_index I) (month_start_of_index (I - num_months)) {} [] =
        Inr ({} \<union> month_start_of_index ` {I - num_months..I},
             [] @ map (\<lambda>i. (month_start_of_index i, 0)) [I - num_months..I])"
      using n lo hi by (intro month_starts_loop_result) (simp_all add: I_def)
    then show ?thesis by (simp add: first_def start_def E_def T0_def)
  qed
  have k0: "map fst T0 = map month_start_of_index [I - num_months..I]"
    by (simp add: T0_def comp_def)
  have e0: "E = fst ` set T0"
    unfolding E_def using k0 by (metis list.set_map set_upto)
  have asc0: "sorted_wrt (<) (map fst T0)"
    unfolding k0 by (rule month_starts_ascending)
  then have d0: "distinct (map fst T0)"
    by (simp add: strict_sorted_iff)
  have hv: "\<forall>c \<in> set history. valid_date c"
    using h by (simp add: history_def)
  from monthly_count_loop_result [OF hv e0 d0, of start today] obtain T' where
    c: "monthly_count_loop start today E history T0 = Inr T'"
    and k: "map fst T' = map fst T0"
    and vals: "\<forall>k \<in> E. dict_get_default T' k = dict_get_default T0 k +
      int (length (filter (\<lambda>c. start \<le> c \<and> c \<le> today \<and> (year c, month c, 1) = k) history))"
    by blast
  have asc: "sorted_wrt (<) (map fst T')" using asc0 k by simp
  then have d: "distinct (map fst T')" by (simp add: strict_sorted_iff)
  have srt: "sort T' = T'"
    by (rule sorted_sort_id) (rule sorted_by_keys [OF asc])
  have res: "calculate_monthly_trend tr today habit_name num_months = Inr T'"
    unfolding calculate_monthly_trend_def g option.case Let_def f sum.case s
      history_def [symmetric] l prod.case c srt dict_of_items_distinct [OF d]
    by (rule refl)
  have len: "length T' = nat num_months + 1"
  proof -
    have "length T' = length (map fst T')" by simp
    also have "\<dots> = length [I - num_months..I]" unfolding k k0 by simp
    also have "\<dots> = nat num_months + 1" using n by simp
    finally show ?thesis .
  qed
  have val: "snd kv = int (length (filter
      (\<lambda>c. start \<le> c \<and> c \<le> today \<and> (year c, month c, 1) = fst kv) history))"
    if "kv \<in> set T'" for kv
  proof -
    have m: "fst kv \<in> E"
      using that k e0 by (metis image_eqI list.set_map)
    have "(fst kv, snd kv) \<in> set T'" using that by simp
    then have a: "dict_get_default T' (fst kv) = snd kv"
      by (rule dict_get_default_entry [OF d])
    from m have "(fst kv, 0) \<in> set T0"
      by (auto simp: E_def T0_def)
    then have b: "dict_get_default T0 (fst kv) = 0"
      by (rule dict_get_default_entry [OF d0])
    from vals m a b show ?thesis by simp
  qed
  show ?thesis
    using res len k asc val
    by (auto simp: k0 I_def start_def history_def)
qed

theorem calculate_monthly_trend_dense_witness:
  "valid_date (2024, 1, 16) \<and> (0 :: int) \<le> 3 \<and> 12 \<le> month_index (2024, 1, 16) - 3 \<and>
   month_index (2024, 1, 16) \<le> 12 * 9999 + 10 \<and>
   get_habit walk_log ''Walk'' = Some walk \<and>
   get_completion_history walk_log ''Walk'' =
     [(2023, 12, 31), (2024, 1, 1), (2024, 1, 15), (2024, 1, 17)] \<and>
   (\<exists>trend. calculate_monthly_trend walk_log (2024, 1, 16) ''Walk'' 3 = Inr trend \<and>
      length trend = 4 \<and>
      map fst trend = [(2023, 10, 1), (2023, 11, 1), (2023, 12, 1), (2024, 1, 1)] \<and>
      sorted_wrt (<) (map fst trend) \<and>
      snd (trend ! 3) = int (length (filter
         (\<lambda>c. (2023, 10, 1) \<le> c \<and> c \<le> (2024, 1, 16) \<and> (year c, month c, 1) = ((2024, 1, 1) :: date))
         [(2023, 12, 31), (2024, 1, 1), (2024, 1, 15), (2024, 1, 17)])) \<and>
      snd (trend ! 3) = 2)"
proof -
  have v: "valid_date (2024, 1, 16)"
    by (simp add: valid_date_def MINYEAR_def MAXYEAR_def days_in_month_def date_eval)
  have a: "(0 :: int) \<le> 3" by simp
  have b: "12 \<le> month_index (2024, 1, 16) - 3"
    by (simp add: month_index_def year_def month_def)
  have c: "month_index (2024, 1, 16) \<le> 12 * 9999 + 10"
    by (simp add: month_index_def year_def month_def)
  have h: "\<forall>c \<in> set (get_completion_history walk_log ''Walk''). valid_date c"
    unfolding walk_log_history
    by (simp add: valid_date_def MINYEAR_def MAXYEAR_def days_in_month_def date_eval)
  have u: "[month_index (2024, 1, 16) - 3..month_index (2024, 1, 16)] =
      [24285, 24286, 24287, 24288]"
    by (simp add: month_index_def year_def month_def upto_rec1)
  have m: "map month_start_of_index [24285, 24286, 24287, 24288] =
      [(2023, 10, 1), (2023, 11, 1), (2023, 12, 1), (2024, 1, 1)]"
    by (simp add: month_start_of_index_def)
  have s: "month_start_of_index (month_index (2024, 1, 16) - 3) = (2023, 10, 1)"
    by (simp add: month_index_def year_def month_def month_start_of_index_def)
  from calculate_monthly_trend_dense [OF v a b c walk_log_habit h]
  obtain trend where t: "calculate_monthly_trend walk_log (2024, 1, 16) ''Walk'' 3 = Inr trend"
    "length trend = nat 3 + 1"
    "map fst trend =
      map month_start_of_index [month_index (2024, 1, 16) - 3..month_index (2024, 1, 16)]"
    "sorted_wrt (<) (map fst trend)"
    and vals: "\<forall>kv \<in> set trend. snd kv = int (length (filter
         (\<lambda>c. month_start_of_index (month_index (2024, 1, 16) - 3) \<le> c \<and> c \<le> (2024, 1, 16) \<and>
              (year c, month c, 1) = fst kv)
         (get_completion_history walk_log ''Walk'')))"
    by blast
  have l: "length trend = 4" using t(2) by simp
  have k: "map fst trend = [(2023, 10, 1), (2023, 11, 1), (2023, 12, 1), (2024, 1, 1)]"
    using t(3) unfolding u m .
  have i: "trend ! 3 \<in> set trend" using l by simp
  have "fst (trend ! 3) = map fst trend ! 3" using l by simp
  then have f: "fst (trend ! 3) = (2024, 1, 1)" unfolding k by simp
  from vals i have "snd (trend ! 3) = int (length (filter
         (\<lambda>c. month_start_of_index (month_index (2024, 1, 16) - 3) \<le> c \<and> c \<le> (2024, 1, 16) \<and>
              (year c, month c, 1) = fst (trend ! 3))
         (get_completion_history walk_log ''Walk'')))"
    by blast
  then have w: "snd (trend ! 3) = int (length (filter
         (\<lambda>c. (2023, 10, 1) \<le> c \<and> c \<le> (2024, 1, 16) \<and> (year c, month c, 1) = ((2024, 1, 1) :: date))
         [(2023, 12, 31), (2024, 1, 1), (2024, 1, 15), (2024, 1, 17)]))"
    unfolding s f walk_log_history .
  then have two: "snd (trend ! 3) = 2"
    by (simp add: year_def month_def)
  show ?thesis
    by (intro conjI exI [of _ trend])
       (rule v a b c walk_log_habit walk_log_history t(1) l k t(4) w two)+
qed

theorem calculate_monthly_trend_year_zero:
  "get_habit walk_log ''Walk'' = Some walk \<and>
   calculate_monthly_trend walk_log (2024, 1, 20) ''Walk'' 24300 = Inl ValueError"
proof -
  have "calculate_monthly_trend walk_log (2024, 1, 20) ''Walk'' 24300 = Inl ValueError"
    unfolding calculate_monthly_trend_def walk_log_habit walk_log_history option.case
    by (simp add: mk_date_def valid_date_def MINYEAR_def MAXYEAR_def days_in_month_def
        relativedelta_sub_def relativedelta_neg_def relativedelta_add_def
        relativedelta_months_def date_eval)
  then show ?thesis by (simp add: walk_log_habit)
qed

section \<open>The weekly trend\<close>





















end
